theory Spec2Isabelle
  imports Complex_Main "HOL-Library.Sublist"
begin

section \<open>The debug inspectors of the theme: a shallow embedding\<close>

text \<open>
  The theme ships two in-browser debugging scripts: the per-section component inspector
  (\<^verbatim>\<open>section-debug.js\<close>) and the page-wide style scanner (\<^verbatim>\<open>style-debug.js\<close>).
  Their functions are embedded here as HOL functions. JavaScript strings are modelled as
  \<^typ>\<open>string\<close>; \<^verbatim>\<open>null\<close> is \<^term>\<open>None\<close>.
\<close>

subsection \<open>File hints (\<^verbatim>\<open>guessFileLocation\<close>)\<close>

text \<open>
  The pattern table of \<^verbatim>\<open>guessFileLocation\<close>. Every regular expression of the table is
  an anchored literal (\<^verbatim>\<open>/^testimonial/\<close>), so \<^verbatim>\<open>regex.test(className)\<close> is the test
  that the literal is a prefix of the class name. The order is the order of the source.
\<close>

definition patterns :: "(string \<times> string) list" where
  "patterns =
    [(''testimonial'', ''sections/testimonials.liquid''),
     (''header2'', ''sections/header2.liquid''),
     (''footer'', ''sections/footer.liquid''),
     (''features-bar'', ''sections/features-bar.liquid''),
     (''features-icons'', ''sections/features-icons.liquid''),
     (''product-card'', ''snippets/product-card.liquid''),
     (''product-grid'', ''sections/product-grid.liquid''),
     (''banner'', ''sections/banner-image-hero.liquid''),
     (''video-hero'', ''sections/hero-video.liquid''),
     (''wholesale'', ''sections/wholesale-*.liquid''),
     (''contact'', ''sections/contact-form.liquid''),
     (''cta-banner'', ''sections/cta-banner.liquid''),
     (''brand'', ''sections/brands-grid.liquid''),
     (''card'', ''snippets/card-*.liquid''),
     (''button'', ''assets/base.css''),
     (''rte'', ''snippets/article-*.liquid'')]"

definition defaultFileHint :: string where
  "defaultFileHint = ''assets/theme-toggle.css (dark mode overrides)''"

text \<open>The \<^verbatim>\<open>for (const pattern of patterns)\<close> loop: it returns at the first pattern that matches.\<close>

fun firstMatch :: "(string \<times> string) list \<Rightarrow> string \<Rightarrow> string option" where
  "firstMatch [] className = None"
| "firstMatch ((regex, file) # ps) className =
     (if prefix regex className then Some file else firstMatch ps className)"

text \<open>
  \<^verbatim>\<open>if (!className) return null\<close> holds for \<^verbatim>\<open>null\<close> and for the empty string, and
  \<^verbatim>\<open>if (sectionType)\<close> fails for both as well.
\<close>

definition guessFileLocation :: "string option \<Rightarrow> string option \<Rightarrow> string option" where
  "guessFileLocation className sectionType =
     (case className of
        None \<Rightarrow> None
      | Some cn \<Rightarrow>
          if cn = [] then None
          else (case firstMatch patterns cn of
                  Some file \<Rightarrow> Some file
                | None \<Rightarrow>
                    (case sectionType of
                       None \<Rightarrow> Some defaultFileHint
                     | Some t \<Rightarrow>
                         if t = [] then Some defaultFileHint
                         else Some (''sections/'' @ t @ ''.liquid''))))"

subsection \<open>Spacing scale (\<^verbatim>\<open>isConsistentSpacing\<close>)\<close>

text \<open>
  A measured spacing is a finite IEEE double; every such number is a rational, and
  \<^verbatim>\<open>Math.round\<close> is exact on it: the nearest integer, a tie going up.
\<close>

definition Math_round :: "rat \<Rightarrow> int" where
  "Math_round x = \<lfloor>x + 1 / 2\<rfloor>"

definition spacingValues :: "int list" where
  "spacingValues = [0, 4, 8, 12, 16, 20, 24, 28, 32, 40, 48, 56, 64, 80, 96, 112, 128]"

definition isConsistentSpacing :: "rat \<Rightarrow> bool" where
  "isConsistentSpacing v =
     (let rounded = Math_round v
      in list_ex (\<lambda>expected. \<bar>rounded - expected\<bar> \<le> 2) spacingValues)"

text \<open>
  The bands of rounded values that lie within 2 of an entry of the scale, written out;
  the entries up to 32 are 4 apart, so their bands join into one.
\<close>

definition inScaleBand :: "int \<Rightarrow> bool" where
  "inScaleBand r \<longleftrightarrow>
     (-2 \<le> r \<and> r \<le> 34) \<or> (38 \<le> r \<and> r \<le> 42) \<or> (46 \<le> r \<and> r \<le> 50) \<or> (54 \<le> r \<and> r \<le> 58)
     \<or> (62 \<le> r \<and> r \<le> 66) \<or> (78 \<le> r \<and> r \<le> 82) \<or> (94 \<le> r \<and> r \<le> 98)
     \<or> (110 \<le> r \<and> r \<le> 114) \<or> (126 \<le> r \<and> r \<le> 130)"

subsection \<open>Strings\<close>

text \<open>
  The strings the inspectors handle are computed style values, tag names and class
  attributes; they are modelled as lists of 8-bit characters. \<^verbatim>\<open>toUpperCase\<close> and
  \<^verbatim>\<open>toLowerCase\<close> act on the ASCII letters.
\<close>

definition toUpperChar :: "char \<Rightarrow> char" where
  "toUpperChar c =
     (case map_of (zip ''abcdefghijklmnopqrstuvwxyz'' ''ABCDEFGHIJKLMNOPQRSTUVWXYZ'') c of
        Some u \<Rightarrow> u
      | None \<Rightarrow> c)"

definition toLowerChar :: "char \<Rightarrow> char" where
  "toLowerChar c =
     (case map_of (zip ''ABCDEFGHIJKLMNOPQRSTUVWXYZ'' ''abcdefghijklmnopqrstuvwxyz'') c of
        Some l \<Rightarrow> l
      | None \<Rightarrow> c)"

definition toUpperCase :: "string \<Rightarrow> string" where
  "toUpperCase s = map toUpperChar s"

definition toLowerCase :: "string \<Rightarrow> string" where
  "toLowerCase s = map toLowerChar s"

text \<open>\<^verbatim>\<open>s.includes(sub)\<close>: \<open>sub\<close> occurs in \<open>s\<close> as a contiguous run.\<close>

fun includesStr :: "string \<Rightarrow> string \<Rightarrow> bool" where
  "includesStr [] sub = (sub = [])"
| "includesStr (c # cs) sub = (prefix sub (c # cs) \<or> includesStr cs sub)"

text \<open>The character classes \<^verbatim>\<open>\d\<close> and \<^verbatim>\<open>\s\<close> of a regular expression, on 8-bit characters.\<close>

definition isDigit :: "char \<Rightarrow> bool" where
  "isDigit c = (c \<in> set ''0123456789'')"

definition isSpace :: "char \<Rightarrow> bool" where
  "isSpace c = (c \<in> set [CHR 0x09, CHR 0x0A, CHR 0x0B, CHR 0x0C, CHR 0x0D, CHR '' '', CHR 0xA0])"

text \<open>
  \<^verbatim>\<open>parseInt\<close> on a run of decimal digits (the only argument it gets here), exact as long
  as the number is below \<open>2\<^sup>5\<^sup>3\<close>; and \<^verbatim>\<open>n.toString(16)\<close> on a natural number.
\<close>

definition digitVal :: "char \<Rightarrow> nat" where
  "digitVal c = (case map_of (zip ''0123456789'' [0 ..< 10]) c of Some d \<Rightarrow> d | None \<Rightarrow> 0)"

definition parseInt :: "string \<Rightarrow> nat" where
  "parseInt ds = foldl (\<lambda>n c. 10 * n + digitVal c) 0 ds"

definition hexDigit :: "nat \<Rightarrow> char" where
  "hexDigit d = ''0123456789abcdef'' ! d"

fun toString16 :: "nat \<Rightarrow> string" where
  "toString16 n = (if n < 16 then [hexDigit n] else toString16 (n div 16) @ [hexDigit (n mod 16)])"

declare toString16.simps [simp del]

definition padStart :: "nat \<Rightarrow> char \<Rightarrow> string \<Rightarrow> string" where
  "padStart targetLength c s = replicate (targetLength - length s) c @ s"

subsection \<open>Colour normalisation (\<^verbatim>\<open>rgbToHex\<close>)\<close>

text \<open>
  The regular expression \<^verbatim>\<open>/rgba?\((\d+),\s*(\d+),\s*(\d+)/\<close> tried at the start of a
  string. Each greedy part is followed by a character outside its class, so the greedy
  choice is the only one that can match and no backtracking is lost.
\<close>

definition matchHere :: "string \<Rightarrow> (string \<times> string \<times> string) option" where
  "matchHere s =
     (if \<not> prefix ''rgb'' s then None
      else
        let r0 = drop 3 s;
            r0' = (if prefix ''a'' r0 then drop 1 r0 else r0)
        in (case r0' of
              [] \<Rightarrow> None
            | p # r1 \<Rightarrow>
                if p \<noteq> CHR ''('' then None
                else
                  let m1 = takeWhile isDigit r1; r2 = dropWhile isDigit r1
                  in (case r2 of
                        [] \<Rightarrow> None
                      | c1 # r3 \<Rightarrow>
                          if m1 = [] \<or> c1 \<noteq> CHR '','' then None
                          else
                            let r4 = dropWhile isSpace r3;
                                m2 = takeWhile isDigit r4; r5 = dropWhile isDigit r4
                            in (case r5 of
                                  [] \<Rightarrow> None
                                | c2 # r6 \<Rightarrow>
                                    if m2 = [] \<or> c2 \<noteq> CHR '','' then None
                                    else
                                      let r7 = dropWhile isSpace r6;
                                          m3 = takeWhile isDigit r7
                                      in if m3 = [] then None else Some (m1, m2, m3)))))"

text \<open>\<^verbatim>\<open>rgb.match(...)\<close> without the \<^verbatim>\<open>g\<close> flag: the leftmost position where the expression matches.\<close>

fun regexMatch :: "string \<Rightarrow> (string \<times> string \<times> string) option" where
  "regexMatch [] = matchHere []"
| "regexMatch (c # cs) =
     (case matchHere (c # cs) of Some m \<Rightarrow> Some m | None \<Rightarrow> regexMatch cs)"

text \<open>
  \<^verbatim>\<open>rgbToHex\<close> of the component inspector. \<^verbatim>\<open>!rgb\<close> holds for the empty string.
\<close>

definition rgbToHex :: "string \<Rightarrow> string" where
  "rgbToHex rgb =
     (if rgb = [] \<or> rgb = ''transparent'' \<or> rgb = ''rgba(0, 0, 0, 0)'' then ''transparent''
      else (case regexMatch rgb of
              None \<Rightarrow> rgb
            | Some (m1, m2, m3) \<Rightarrow>
                let r = padStart 2 CHR ''0'' (toString16 (parseInt m1));
                    g = padStart 2 CHR ''0'' (toString16 (parseInt m2));
                    b = padStart 2 CHR ''0'' (toString16 (parseInt m3))
                in toUpperCase (''#'' @ r @ g @ b)))"

text \<open>
  \<^verbatim>\<open>rgbToHex\<close> of the style scanner: it returns \<^verbatim>\<open>null\<close> where the inspector's returns
  \<^verbatim>\<open>'transparent'\<close>, and pads a one-digit channel by hand.
\<close>

definition padHex :: "nat \<Rightarrow> string" where
  "padHex x = (let hex = toString16 x in if length hex = 1 then ''0'' @ hex else hex)"

definition rgbToHexStyle :: "string \<Rightarrow> string option" where
  "rgbToHexStyle rgb =
     (if rgb = [] \<or> rgb = ''transparent'' \<or> rgb = ''rgba(0, 0, 0, 0)'' then None
      else (case regexMatch rgb of
              None \<Rightarrow> Some rgb
            | Some (m1, m2, m3) \<Rightarrow>
                let r = parseInt m1; g = parseInt m2; b = parseInt m3
                in Some (''#'' @ toUpperCase (concat (map padHex [r, g, b])))))"

text \<open>The decimal rendering of a channel, as the browser serialises it in \<^verbatim>\<open>rgb(r, g, b)\<close>.\<close>

definition decDigit :: "nat \<Rightarrow> char" where
  "decDigit d = ''0123456789'' ! d"

fun decimal :: "nat \<Rightarrow> string" where
  "decimal n = (if n < 10 then [decDigit n] else decimal (n div 10) @ [decDigit (n mod 10)])"

declare decimal.simps [simp del]

text \<open>The two uppercase hexadecimal digits of a channel, as the property is stated.\<close>

definition hexPair :: "nat \<Rightarrow> string" where
  "hexPair n = [''0123456789ABCDEF'' ! (n div 16), ''0123456789ABCDEF'' ! (n mod 16)]"

subsection \<open>Copying to the clipboard\<close>

text \<open>
  How a call completes: it returns a value or throws. For an \<^verbatim>\<open>async\<close> function
  \<^term>\<open>Returns v\<close> is a promise fulfilled with \<open>v\<close> and \<^term>\<open>Throws\<close> a rejected one.
\<close>

datatype 'a completion = Returns 'a | Throws

text \<open>
  What the browser does with the two copy mechanisms. \<open>hasClipboard\<close> says that
  \<^verbatim>\<open>navigator.clipboard.writeText\<close> exists; \<open>writeText\<close> is the completion of its promise;
  \<open>execCommand\<close> is the completion of \<^verbatim>\<open>document.execCommand('copy')\<close> with the given text
  selected, which returns \<^verbatim>\<open>false\<close> when the command is unsupported or disabled.
  Creating, selecting and removing the textarea does not throw.
\<close>

record browser =
  hasClipboard :: bool
  writeText :: "string \<Rightarrow> unit completion"
  execCommand :: "string \<Rightarrow> bool completion"

text \<open>
  \<^verbatim>\<open>copyToClipboard(text)\<close> of the copy-button script. Without the API the expression
  \<^verbatim>\<open>navigator.clipboard.writeText\<close> throws a TypeError inside the \<^verbatim>\<open>try\<close>. The value
  that \<^verbatim>\<open>execCommand\<close> returns is not read.
\<close>

definition copyToClipboard :: "browser \<Rightarrow> string \<Rightarrow> bool completion" where
  "copyToClipboard env txt =
     (case (if hasClipboard env then writeText env txt else Throws) of
        Returns _ \<Rightarrow> Returns True
      | Throws \<Rightarrow>
          (case execCommand env txt of
             Returns _ \<Rightarrow> Returns True
           | Throws \<Rightarrow> Returns False))"

text \<open>\<^verbatim>\<open>fallbackCopyText(text)\<close> of the component inspector.\<close>

definition fallbackCopyText :: "browser \<Rightarrow> string \<Rightarrow> bool completion" where
  "fallbackCopyText env txt =
     (let success = False
      in (case execCommand env txt of
            Returns r \<Rightarrow> Returns r
          | Throws \<Rightarrow> Returns success))"

text \<open>
  \<^verbatim>\<open>copyToClipboard(modal)\<close> of the component inspector, for the report text it builds:
  the promise is fulfilled with \<^verbatim>\<open>undefined\<close>, and \<open>success\<close> selects the state the
  copy button shows.
\<close>

datatype feedback = Copied | Failed

definition copyToClipboardModal :: "browser \<Rightarrow> string \<Rightarrow> feedback completion" where
  "copyToClipboardModal env txt =
     (case (if hasClipboard env
            then (case writeText env txt of
                    Returns _ \<Rightarrow> Returns True
                  | Throws \<Rightarrow> fallbackCopyText env txt)
            else fallbackCopyText env txt) of
        Returns success \<Rightarrow> Returns (if success then Copied else Failed)
      | Throws \<Rightarrow> Throws)"

subsection \<open>More string operations\<close>

text \<open>\<^verbatim>\<open>s.split(' ')\<close>: the pieces between single spaces, empty pieces included.\<close>

fun split :: "char \<Rightarrow> string \<Rightarrow> string list" where
  "split sep [] = [[]]"
| "split sep (c # cs) =
     (if c = sep then [] # split sep cs
      else (case split sep cs of
              [] \<Rightarrow> [[c]]
            | w # ws \<Rightarrow> (c # w) # ws))"

definition trim :: "string \<Rightarrow> string" where
  "trim s = rev (dropWhile isSpace (rev (dropWhile isSpace s)))"

text \<open>\<^verbatim>\<open>xs.join(sep)\<close>.\<close>

fun join :: "string \<Rightarrow> string list \<Rightarrow> string" where
  "join sep [] = []"
| "join sep [x] = x"
| "join sep (x # y # ys) = x @ sep @ join sep (y # ys)"

text \<open>\<^verbatim>\<open>s.substring(0, n) + (s.length > n ? '...' : '')\<close>.\<close>

definition truncateTo :: "nat \<Rightarrow> string \<Rightarrow> string" where
  "truncateTo n s = take n s @ (if length s > n then ''...'' else [])"

subsection \<open>The style scanner: elements and tables\<close>

text \<open>
  What both scripts read of an element: \<open>hidden\<close> is \<^verbatim>\<open>el.offsetParent === null\<close>,
  \<open>classAttr\<close> is the \<^verbatim>\<open>class\<close> attribute (empty when absent), \<open>classIsString\<close> says
  that \<^verbatim>\<open>el.className\<close> is that string (it is an object on SVG elements), \<open>styleAttr\<close>
  is \<^verbatim>\<open>el.getAttribute('style')\<close>, and \<open>styles\<close> is the computed style read by property
  name (\<^verbatim>\<open>styles.fontSize\<close>, \<^verbatim>\<open>styles[prop]\<close>).
\<close>

record domElement =
  hidden :: bool
  tagName :: string
  elId :: string
  classAttr :: string
  classIsString :: bool
  styleAttr :: "string option"
  styles :: "string \<Rightarrow> string"

text \<open>
  An element as the style scanner reads it. \<open>inStyleModal\<close> is
  \<^verbatim>\<open>el.closest('#style-debug-modal')\<close>, \<open>getPropertyValue\<close> the computed style read by
  CSS name, \<open>inlineProp\<close> is \<^verbatim>\<open>el.style[name]\<close>, and \<open>ruleUsesVar prop\<close> is the outcome
  of the search through the readable style sheets for a matching rule whose value for
  \<open>prop\<close> contains \<^verbatim>\<open>var(\<close>.
\<close>

record selem = domElement +
  inStyleModal :: bool
  getPropertyValue :: "string \<Rightarrow> string"
  inlineProp :: "string \<Rightarrow> string"
  innerText :: string
  ruleUsesVar :: "string \<Rightarrow> bool"

text \<open>\<^verbatim>\<open>getElementSelector\<close> of the style scanner: tag, id and the first two classes.\<close>

definition getElementSelectorStyle :: "selem \<Rightarrow> string" where
  "getElementSelectorStyle el =
     (let selector = toLowerCase (tagName el);
          selector = (if elId el \<noteq> [] then selector @ ''#'' @ elId el else selector)
      in if classAttr el \<noteq> [] \<and> classIsString el
         then let classes = take 2 (filter (\<lambda>c. trim c \<noteq> []) (split CHR '' '' (classAttr el)))
              in if classes \<noteq> [] then selector @ ''.'' @ join ''.'' classes else selector
         else selector)"

text \<open>
  A \<^verbatim>\<open>Map\<close> keeps its keys in insertion order: an association list with distinct keys.
  \<open>ensure\<close> is \<^verbatim>\<open>if (!m.has(k)) m.set(k, init)\<close>, and \<open>modify\<close> changes the value stored
  under a key in place.
\<close>

definition ensure :: "'k \<Rightarrow> 'v \<Rightarrow> ('k \<times> 'v) list \<Rightarrow> ('k \<times> 'v) list" where
  "ensure k init m = (if k \<in> fst ` set m then m else m @ [(k, init)])"

definition modify :: "'k \<Rightarrow> ('v \<Rightarrow> 'v) \<Rightarrow> ('k \<times> 'v) list \<Rightarrow> ('k \<times> 'v) list" where
  "modify k f m = map (\<lambda>(k', v). if k' = k then (k', f v) else (k', v)) m"

text \<open>\<^verbatim>\<open>if (list.length < 3) list.push(selector)\<close>.\<close>

definition pushCapped :: "string \<Rightarrow> string list \<Rightarrow> string list" where
  "pushCapped selector els = (if length els < 3 then els @ [selector] else els)"

text \<open>\<^verbatim>\<open>set.add(x)\<close> on a \<^verbatim>\<open>Set\<close>, kept in insertion order.\<close>

definition setAdd :: "'a \<Rightarrow> 'a list \<Rightarrow> 'a list" where
  "setAdd x xs = (if x \<in> set xs then xs else xs @ [x])"

record colorData =
  isTheme :: bool
  elements :: "string list"
  isBg :: bool

record spacingData =
  spElements :: "string list"
  properties :: "string list"
  isConsistent :: bool

subsection \<open>The style scanner: \<^verbatim>\<open>scanStyles\<close>\<close>

definition normalizeFontFamily :: "string \<Rightarrow> string" where
  "normalizeFontFamily fontFamily =
     trim (filter (\<lambda>c. c \<noteq> CHR 0x27 \<and> c \<noteq> CHR 0x22) (toLowerCase fontFamily))"

definition systemFonts :: "string list" where
  "systemFonts =
     [''system-ui'', ''-apple-system'', ''blinkmacsystemfont'', ''segoe ui'',
      ''roboto'', ''helvetica neue'', ''arial'', ''sans-serif'', ''noto sans'',
      ''liberation sans'', ''helvetica'']"

definition isExpectedFontFamily :: "string \<Rightarrow> bool" where
  "isExpectedFontFamily fontFamily =
     (let normalized = normalizeFontFamily fontFamily
      in list_ex (\<lambda>sf. includesStr normalized sf) systemFonts)"

definition lightColors :: "string list" where
  "lightColors = [''#F5F7FA'', ''#FFFFFF'', ''#2B2C2D'', ''#005496'', ''#DD6727'', ''#28A745'', ''#E1E5EA'']"

definition darkColors :: "string list" where
  "darkColors = [''#0F172A'', ''#1E293B'', ''#F1F5F9'', ''#60A5FA'', ''#F28C38'', ''#39B47E'', ''#2D3A50'']"

text \<open>\<open>isDark\<close> is \<^verbatim>\<open>document.documentElement.getAttribute('data-theme') === 'dark'\<close>.\<close>

definition isThemeColor :: "bool \<Rightarrow> string option \<Rightarrow> bool" where
  "isThemeColor isDark hexColor =
     (case hexColor of
        None \<Rightarrow> True
      | Some h \<Rightarrow>
          if h = [] then True
          else
            let themeColors = (if isDark then darkColors else lightColors);
                allThemeColors = map toUpperCase themeColors;
                allowedColors = allThemeColors @
                  [''#FFFFFF'', ''#000000'', ''#FFF'', ''#000'', ''TRANSPARENT'', ''INHERIT'', ''CURRENTCOLOR'']
            in toUpperCase h \<in> set allowedColors)"

text \<open>
  \<^verbatim>\<open>parseFloat\<close> is taken as a parameter \<open>pf\<close>: \<^term>\<open>None\<close> is \<^verbatim>\<open>NaN\<close>, and a number is
  the rational that the double denotes.
\<close>

definition parseSpacingValue :: "(string \<Rightarrow> rat option) \<Rightarrow> string \<Rightarrow> rat option" where
  "parseSpacingValue pf v =
     (if v = [] \<or> v = ''auto'' \<or> v = ''normal'' then None
      else (case pf v of
              None \<Rightarrow> None
            | Some num \<Rightarrow> if num = 0 then None else Some num))"

text \<open>
  \<^verbatim>\<open>parseInt(styles.fontWeight)\<close>: the computed weight is a number without sign or leading
  space, so the integer is its leading run of digits, and \<^verbatim>\<open>NaN\<close> when there is none.
\<close>

definition parseIntPrefix :: "string \<Rightarrow> nat option" where
  "parseIntPrefix s = (let ds = takeWhile isDigit s in if ds = [] then None else Some (parseInt ds))"

definition spacingProps :: "(string \<times> string) list" where
  "spacingProps =
     [(''marginTop'', ''margin-top''), (''marginBottom'', ''margin-bottom''),
      (''marginLeft'', ''margin-left''), (''marginRight'', ''margin-right''),
      (''paddingTop'', ''padding-top''), (''paddingBottom'', ''padding-bottom''),
      (''paddingLeft'', ''padding-left''), (''paddingRight'', ''padding-right''),
      (''gap'', ''gap''), (''rowGap'', ''row-gap''), (''columnGap'', ''column-gap'')]"

text \<open>
  The five \<^verbatim>\<open>Map\<close>s of \<^verbatim>\<open>scanStyles\<close>. A font size is keyed by \<^verbatim>\<open>fontSize + 'px'\<close>, a
  weight by \<^verbatim>\<open>fontWeight.toString()\<close> and a spacing by \<^verbatim>\<open>rounded + 'px'\<close>; different
  numbers give different strings, so the tables are keyed by the numbers themselves.
\<close>

record tables =
  seenFontFamilies :: "(string \<times> string list) list"
  seenFontSizes :: "(rat \<times> string list) list"
  seenFontWeights :: "(nat \<times> string list) list"
  seenColors :: "(string \<times> colorData) list"
  seenSpacing :: "(int \<times> spacingData) list"

definition emptyTables :: tables where
  "emptyTables = \<lparr>seenFontFamilies = [], seenFontSizes = [], seenFontWeights = [],
                   seenColors = [], seenSpacing = []\<rparr>"

definition checkFontFamily :: "selem \<Rightarrow> string \<Rightarrow> tables \<Rightarrow> tables" where
  "checkFontFamily el selector t =
     (let fontFamily = styles el ''fontFamily''
      in if fontFamily \<noteq> [] \<and> \<not> isExpectedFontFamily fontFamily
         then t\<lparr>seenFontFamilies :=
                  modify fontFamily (\<lambda>els. els @ [selector]) (ensure fontFamily [] (seenFontFamilies t))\<rparr>
         else t)"

definition checkFontSize :: "(string \<Rightarrow> rat option) \<Rightarrow> selem \<Rightarrow> string \<Rightarrow> tables \<Rightarrow> tables" where
  "checkFontSize pf el selector t =
     (case pf (styles el ''fontSize'') of
        None \<Rightarrow> t
      | Some fontSize \<Rightarrow>
          if fontSize = 0 then t
          else t\<lparr>seenFontSizes :=
                   modify fontSize (pushCapped selector) (ensure fontSize [] (seenFontSizes t))\<rparr>)"

definition checkFontWeight :: "selem \<Rightarrow> string \<Rightarrow> tables \<Rightarrow> tables" where
  "checkFontWeight el selector t =
     (case parseIntPrefix (styles el ''fontWeight'') of
        None \<Rightarrow> t
      | Some fontWeight \<Rightarrow>
          if fontWeight = 0 then t
          else t\<lparr>seenFontWeights :=
                   modify fontWeight (pushCapped selector) (ensure fontWeight [] (seenFontWeights t))\<rparr>)"

definition checkTextColor :: "bool \<Rightarrow> selem \<Rightarrow> string \<Rightarrow> tables \<Rightarrow> tables" where
  "checkTextColor isDark el selector t =
     (case rgbToHexStyle (styles el ''color'') of
        None \<Rightarrow> t
      | Some color \<Rightarrow>
          if color \<noteq> [] \<and> color \<noteq> ''#000000'' \<and> color \<noteq> ''#FFFFFF''
          then t\<lparr>seenColors :=
                   modify color (\<lambda>d. d\<lparr>elements := pushCapped selector (elements d)\<rparr>)
                     (ensure color \<lparr>isTheme = isThemeColor isDark (Some color), elements = [], isBg = False\<rparr>
                        (seenColors t))\<rparr>
          else t)"

definition checkBackgroundColor :: "bool \<Rightarrow> selem \<Rightarrow> string \<Rightarrow> tables \<Rightarrow> tables" where
  "checkBackgroundColor isDark el selector t =
     (case rgbToHexStyle (styles el ''backgroundColor'') of
        None \<Rightarrow> t
      | Some bgColor \<Rightarrow>
          if bgColor \<noteq> []
          then let key = ''bg:'' @ bgColor
               in t\<lparr>seenColors :=
                     modify key (\<lambda>d. d\<lparr>elements := pushCapped selector (elements d)\<rparr>)
                       (ensure key \<lparr>isTheme = isThemeColor isDark (Some bgColor), elements = [], isBg = True\<rparr>
                          (seenColors t))\<rparr>
          else t)"

definition checkSpacing ::
    "(string \<Rightarrow> rat option) \<Rightarrow> selem \<Rightarrow> string \<Rightarrow> (string \<times> string) \<Rightarrow> tables \<Rightarrow> tables" where
  "checkSpacing pf el selector pl t =
     (case pl of (prop, label) \<Rightarrow>
        (case parseSpacingValue pf (styles el prop) of
           None \<Rightarrow> t
         | Some v \<Rightarrow>
             if v > 0
             then let rounded = Math_round v;
                      consistent = isConsistentSpacing v
                  in t\<lparr>seenSpacing :=
                        modify rounded
                          (\<lambda>d. d\<lparr>properties := setAdd label (properties d),
                                  spElements := pushCapped selector (spElements d)\<rparr>)
                          (ensure rounded \<lparr>spElements = [], properties = [], isConsistent = consistent\<rparr>
                             (seenSpacing t))\<rparr>
             else t))"

text \<open>The body of \<^verbatim>\<open>elements.forEach\<close> in \<^verbatim>\<open>scanStyles\<close>.\<close>

definition scanElement :: "(string \<Rightarrow> rat option) \<Rightarrow> bool \<Rightarrow> selem \<Rightarrow> tables \<Rightarrow> tables" where
  "scanElement pf isDark el t =
     (if inStyleModal el then t
      else if hidden el \<and> tagName el \<noteq> ''BODY'' then t
      else
        let selector = getElementSelectorStyle el;
            t = checkFontFamily el selector t;
            t = checkFontSize pf el selector t;
            t = checkFontWeight el selector t;
            t = checkTextColor isDark el selector t;
            t = checkBackgroundColor isDark el selector t
        in fold (checkSpacing pf el selector) spacingProps t)"

text \<open>
  \<^verbatim>\<open>document.querySelectorAll('body *:not(script):not(style)...')\<close> over the descendants of
  \<^verbatim>\<open>body\<close>, given in document order: a type selector compares the lower-case tag name.
\<close>

definition notTags :: "string list \<Rightarrow> selem list \<Rightarrow> selem list" where
  "notTags tags els = filter (\<lambda>el. toLowerCase (tagName el) \<notin> set tags) els"

record inconsistencies =
  fontFamily :: "(string \<times> string list) list"
  fontSize :: "(rat \<times> string list) list"
  fontWeight :: "(nat \<times> string list) list"
  color :: "(string \<times> colorData) list"
  spacing :: "(int \<times> spacingData) list"

text \<open>
  \<^verbatim>\<open>scanStyles\<close>. The arrays are the entries of the maps, sorted by the stable
  \<^verbatim>\<open>Array.prototype.sort\<close>: sizes, weights and spacings by number, colours with the
  non-theme ones first. A background entry shows its key without \<^verbatim>\<open>bg:\<close> and with
  \<^verbatim>\<open>(bg)\<close> appended.
\<close>

definition scanStyles :: "(string \<Rightarrow> rat option) \<Rightarrow> bool \<Rightarrow> selem list \<Rightarrow> inconsistencies" where
  "scanStyles pf isDark bodyDescendants =
     (let els = notTags [''script'', ''style'', ''svg'', ''path'', ''circle'', ''line'', ''rect'', ''polygon'']
                  bodyDescendants;
          t = fold (scanElement pf isDark) els emptyTables
      in \<lparr>fontFamily = seenFontFamilies t,
          fontSize = sort_key fst (seenFontSizes t),
          fontWeight = sort_key fst (seenFontWeights t),
          color = sort_key (\<lambda>(v, d). isTheme d)
                    (map (\<lambda>(c, d). (if isBg d then drop 3 c @ '' (bg)'' else c, d)) (seenColors t)),
          spacing = sort_key fst (seenSpacing t)\<rparr>)"

text \<open>The cap that the size, weight, colour and spacing tables keep while they are filled.\<close>

definition capInv :: "tables \<Rightarrow> bool" where
  "capInv t \<longleftrightarrow>
     list_all (\<lambda>(k, els). length els \<le> 3) (seenFontSizes t)
   \<and> list_all (\<lambda>(k, els). length els \<le> 3) (seenFontWeights t)
   \<and> list_all (\<lambda>(k, d). length (elements d) \<le> 3) (seenColors t)
   \<and> list_all (\<lambda>(k, d). length (spElements d) \<le> 3) (seenSpacing t)"

text \<open>A paragraph in a non-system font and a \<^verbatim>\<open>parseFloat\<close> for its values, to run the scanner on.\<close>

definition exampleParagraph :: selem where
  "exampleParagraph =
     \<lparr>hidden = False, tagName = ''P'', elId = [], classAttr = ''note'', classIsString = True,
      styleAttr = None,
      styles = (\<lambda>p. if p = ''fontFamily'' then ''Georgia''
                     else if p = ''fontSize'' then ''16px''
                     else if p = ''fontWeight'' then ''400''
                     else if p = ''color'' then ''rgb(10, 20, 30)''
                     else if p = ''backgroundColor'' then ''rgba(0, 0, 0, 0)''
                     else if p = ''marginTop'' then ''5px''
                     else ''0px''),
      inStyleModal = False, getPropertyValue = (\<lambda>p. []), inlineProp = (\<lambda>p. []), innerText = ''text'',
      ruleUsesVar = (\<lambda>p. False)\<rparr>"

definition exampleParseFloat :: "string \<Rightarrow> rat option" where
  "exampleParseFloat s = (if s = ''16px'' then Some 16 else if s = ''5px'' then Some 5
                           else if s = ''0px'' then Some 0 else None)"

subsection \<open>The style scanner: \<^verbatim>\<open>scanConflicts\<close>\<close>

record conflict =
  element :: string
  conflictType :: string
  detail :: string
  style :: "string option"
  expected :: "string option"
  actual :: "string option"

definition allowedConflictColors :: "bool \<Rightarrow> string list" where
  "allowedConflictColors isDark =
     map toUpperCase (if isDark then darkColors else lightColors)
       @ [''#FFFFFF'', ''#000000'', ''#FFF'', ''#000'', ''TRANSPARENT'']"

text \<open>The \<^verbatim>\<open>if (inlineStyle && inlineStyle.includes('!important'))\<close> check.\<close>

definition checkImportant :: "selem \<Rightarrow> string \<Rightarrow> conflict list \<Rightarrow> conflict list" where
  "checkImportant el selector conflicts =
     (case styleAttr el of
        None \<Rightarrow> conflicts
      | Some inlineStyle \<Rightarrow>
          if inlineStyle \<noteq> [] \<and> includesStr inlineStyle ''!important''
          then conflicts @
                 [\<lparr>element = selector, conflictType = ''inline-important'',
                   detail = ''Inline !important override detected'',
                   style = Some (truncateTo 100 inlineStyle), expected = None, actual = None\<rparr>]
          else conflicts)"

text \<open>The body of \<^verbatim>\<open>colorProps.forEach\<close>.\<close>

definition checkColorProp :: "bool \<Rightarrow> selem \<Rightarrow> string \<Rightarrow> string \<Rightarrow> conflict list \<Rightarrow> conflict list" where
  "checkColorProp isDark el selector prop conflicts =
     (let computedValue = getPropertyValue el prop;
          hexColor = rgbToHexStyle computedValue;
          inlineVal = inlineProp el (if prop = ''background-color'' then ''backgroundColor'' else prop);
          conflicts =
            (if inlineVal \<noteq> [] \<and> \<not> includesStr inlineVal ''var(''
             then conflicts @
                    [\<lparr>element = selector, conflictType = ''inline-override'',
                      detail = ''Inline '' @ prop @ '' override'',
                      style = None, expected = Some ''theme variable'', actual = Some inlineVal\<rparr>]
             else conflicts)
      in (case hexColor of
            None \<Rightarrow> conflicts
          | Some h \<Rightarrow>
              if h \<noteq> [] \<and> toUpperCase h \<notin> set (allowedConflictColors isDark)
              then
                let isTextElement = (innerText el \<noteq> [] \<and> length (trim (innerText el)) > 0);
                    isColorProp = (prop = ''color'');
                    isBgProp = (prop = ''background-color'')
                in if (isColorProp \<and> isTextElement) \<or> isBgProp
                   then (if \<not> ruleUsesVar el prop
                         then conflicts @
                                [\<lparr>element = selector, conflictType = ''hardcoded-color'',
                                  detail = ''Hardcoded '' @ prop @ '' (not theme variable)'',
                                  style = None, expected = Some ''var(--color-*)'', actual = Some h\<rparr>]
                         else conflicts)
                   else conflicts
              else conflicts))"

text \<open>The body of \<^verbatim>\<open>elements.forEach\<close> in \<^verbatim>\<open>scanConflicts\<close>.\<close>

definition conflictsOf :: "bool \<Rightarrow> selem \<Rightarrow> conflict list \<Rightarrow> conflict list" where
  "conflictsOf isDark el conflicts =
     (if inStyleModal el then conflicts
      else if hidden el \<and> tagName el \<noteq> ''BODY'' then conflicts
      else
        let selector = getElementSelectorStyle el;
            conflicts = checkImportant el selector conflicts
        in fold (checkColorProp isDark el selector) [''color'', ''background-color'', ''border-color'']
             conflicts)"

definition conflictKey :: "conflict \<Rightarrow> string" where
  "conflictKey c = element c @ conflictType c @ detail c"

text \<open>The \<^verbatim>\<open>filter\<close> with the \<^verbatim>\<open>seen\<close> set: the first conflict of every key is kept.\<close>

fun dedupe :: "string set \<Rightarrow> conflict list \<Rightarrow> conflict list" where
  "dedupe seen [] = []"
| "dedupe seen (c # cs) =
     (let key = conflictKey c
      in if key \<in> seen then dedupe seen cs else c # dedupe (insert key seen) cs)"

definition scanConflicts :: "bool \<Rightarrow> selem list \<Rightarrow> conflict list" where
  "scanConflicts isDark bodyDescendants =
     (let els = notTags [''script'', ''style'', ''svg'', ''path''] bodyDescendants;
          conflicts = fold (conflictsOf isDark) els []
      in take 100 (dedupe {} conflicts))"

text \<open>An element with an inline \<^verbatim>\<open>!important\<close> colour, to run the conflict scan on.\<close>

definition exampleOverride :: selem where
  "exampleOverride =
     \<lparr>hidden = False, tagName = ''DIV'', elId = ''hero'', classAttr = ''banner wide big'',
      classIsString = True, styleAttr = Some ''color: red !important'',
      styles = (\<lambda>p. []), inStyleModal = False,
      getPropertyValue = (\<lambda>p. if p = ''color'' then ''rgb(255, 0, 0)'' else ''rgba(0, 0, 0, 0)''),
      inlineProp = (\<lambda>p. if p = ''color'' then ''red'' else []), innerText = ''Sale'',
      ruleUsesVar = (\<lambda>p. False)\<rparr>"

subsection \<open>The component inspector: the document\<close>

text \<open>
  An element as the component inspector reads it: the common part and, for an image,
  \<^verbatim>\<open>el.src\<close>, \<^verbatim>\<open>el.naturalWidth\<close>, \<^verbatim>\<open>el.naturalHeight\<close> and \<^verbatim>\<open>el.complete\<close>. The
  document is a tree of elements.
\<close>

record ielem = domElement +
  src :: string
  naturalWidth :: nat
  naturalHeight :: nat
  complete :: bool

datatype node = Node (attrs: ielem) (kids: "node list")

text \<open>\<^verbatim>\<open>el.classList\<close>: the class attribute split at ASCII whitespace.\<close>

definition isAsciiSpace :: "char \<Rightarrow> bool" where
  "isAsciiSpace c = (c \<in> set [CHR 0x09, CHR 0x0A, CHR 0x0C, CHR 0x0D, CHR '' ''])"

fun splitWhen :: "(char \<Rightarrow> bool) \<Rightarrow> string \<Rightarrow> string list" where
  "splitWhen P [] = [[]]"
| "splitWhen P (c # cs) =
     (if P c then [] # splitWhen P cs
      else (case splitWhen P cs of
              [] \<Rightarrow> [[c]]
            | w # ws \<Rightarrow> (c # w) # ws))"

definition classList :: "'a domElement_scheme \<Rightarrow> string list" where
  "classList el = filter (\<lambda>w. w \<noteq> []) (splitWhen isAsciiSpace (classAttr el))"

text \<open>
  The selectors the inspector uses: a tag name (\<^verbatim>\<open>img\<close>), a class (\<^verbatim>\<open>.media\<close>), a
  substring of the class attribute (\<^verbatim>\<open>[class*="card"]\<close>) and an id (\<^verbatim>\<open>#section-debug-modal\<close>).
\<close>

datatype selector = Tag string | Class string | ClassContains string | Id string

fun matches :: "selector \<Rightarrow> 'a domElement_scheme \<Rightarrow> bool" where
  "matches (Tag t) el = (toLowerCase (tagName el) = t)"
| "matches (Class c) el = (c \<in> set (classList el))"
| "matches (ClassContains s) el = includesStr (classAttr el) s"
| "matches (Id i) el = (elId el = i)"

text \<open>
  \<^verbatim>\<open>el.closest(sel)\<close> is not \<^verbatim>\<open>null\<close>: the element or one of its ancestors matches.
  An element comes with the list of its ancestors, the parent first.
\<close>

definition closest :: "selector \<Rightarrow> ielem \<Rightarrow> ielem list \<Rightarrow> bool" where
  "closest sel el anc = list_ex (matches sel) (el # anc)"

text \<open>
  The descendants of a node in document order, each with its ancestors; \<open>anc\<close> are the
  ancestors of the node itself. \<^verbatim>\<open>querySelectorAll\<close> returns the matching ones in this
  order, and the position in this list identifies an element.
\<close>

fun descendants :: "ielem list \<Rightarrow> node \<Rightarrow> (ielem \<times> ielem list) list" where
  "descendants anc (Node e ks) =
     concat (map (\<lambda>k. (attrs k, e # anc) # descendants (e # anc) k) ks)"

subsection \<open>The component inspector: what is read off an element\<close>

definition DEBUG_MODAL_ID :: string where
  "DEBUG_MODAL_ID = ''section-debug-modal''"

definition getElementSelector :: "'a domElement_scheme \<Rightarrow> string" where
  "getElementSelector el =
     (let selector = toLowerCase (tagName el);
          selector = (if elId el \<noteq> [] then selector @ ''#'' @ elId el else selector)
      in if classAttr el \<noteq> [] \<and> classIsString el
         then let classes = take 3 (filter (\<lambda>c. trim c \<noteq> [] \<and> \<not> prefix ''shopify'' c)
                                      (split CHR '' '' (classAttr el)))
              in if classes \<noteq> [] then selector @ ''.'' @ join ''.'' classes else selector
         else selector)"

definition getPrimaryClass :: "'a domElement_scheme \<Rightarrow> string option" where
  "getPrimaryClass el =
     (if classAttr el = [] \<or> \<not> classIsString el then None
      else (case filter (\<lambda>c. trim c \<noteq> [] \<and> \<not> prefix ''shopify'' c \<and> \<not> prefix ''color-'' c)
                   (split CHR '' '' (classAttr el)) of
              [] \<Rightarrow> None
            | c # _ \<Rightarrow> Some c))"

text \<open>A regular expression without the \<^verbatim>\<open>g\<close> flag matches at the leftmost position it can.\<close>

fun leftmost :: "(string \<Rightarrow> 'a option) \<Rightarrow> string \<Rightarrow> 'a option" where
  "leftmost f [] = f []"
| "leftmost f (c # cs) = (case f (c # cs) of Some r \<Rightarrow> Some r | None \<Rightarrow> leftmost f cs)"

text \<open>
  \<^verbatim>\<open>getCSSVariable\<close>: the expression \<open>property\<close>\<^verbatim>\<open>:\s*var\(([^)]+)\)\<close> on the inline style.
\<close>

definition cssVarHere :: "string \<Rightarrow> string \<Rightarrow> string option" where
  "cssVarHere property s =
     (if \<not> prefix (property @ '':'') s then None
      else
        let r = dropWhile isSpace (drop (length property + 1) s)
        in if \<not> prefix ''var('' r then None
           else
             let g = takeWhile (\<lambda>c. c \<noteq> CHR '')'') (drop 4 r);
                 rest = dropWhile (\<lambda>c. c \<noteq> CHR '')'') (drop 4 r)
             in if g \<noteq> [] \<and> rest \<noteq> [] then Some g else None)"

definition getCSSVariable :: "'a domElement_scheme \<Rightarrow> string \<Rightarrow> string option" where
  "getCSSVariable el property =
     (let inlineStyle = (case styleAttr el of None \<Rightarrow> [] | Some s \<Rightarrow> s)
      in leftmost (cssVarHere property) inlineStyle)"

text \<open>
  The expression \<^verbatim>\<open>/--ratio-percent:\s*([^;]+)/\<close>. When no value follows the white space,
  the expression backtracks and the group is the last white-space character.
\<close>

definition ratioHere :: "string \<Rightarrow> string option" where
  "ratioHere s =
     (if \<not> prefix ''--ratio-percent:'' s then None
      else
        let r = drop 16 s;
            ws = takeWhile isSpace r;
            g = takeWhile (\<lambda>c. c \<noteq> CHR '';'') (dropWhile isSpace r)
        in if g \<noteq> [] then Some g
           else if ws \<noteq> [] then Some [last ws]
           else None)"

text \<open>
  The entry of the report for a descendant. The source's \<^verbatim>\<open>element\<close>, \<^verbatim>\<open>fontSize\<close> and
  \<^verbatim>\<open>fontWeight\<close> are \<open>elementC\<close>, \<open>fontSizeC\<close> and \<open>fontWeightC\<close> here.
\<close>

record component =
  elementC :: string
  selector :: string
  className :: string
  textColor :: string
  textVar :: "string option"
  bgColor :: string
  bgVar :: "string option"
  borderColor :: "string option"
  fileHint :: "string option"
  fontSizeC :: string
  fontWeightC :: string
  display :: string
  position :: "string option"
  width :: string
  height :: string
  aspectRatio :: "string option"
  objectFit :: "string option"
  paddingBottom :: "string option"
  ratioVar :: "string option"
  visibility :: "string option"
  opacity :: "string option"
  isHidden :: bool
  imgSrc :: "string option"
  imgNaturalSize :: "string option"
  imgLoaded :: "bool option"

text \<open>The entry for the section itself.\<close>

record sectionEntry =
  sElement :: string
  sSelector :: string
  sClassName :: "string option"
  sTextColor :: string
  sBgColor :: string
  sFileHint :: "string option"
  isSection :: bool

datatype fact = SectionFact sectionEntry | ComponentFact component

definition orNull :: "string \<Rightarrow> string \<Rightarrow> string option" where
  "orNull dflt v = (if v \<noteq> dflt then Some v else None)"

text \<open>
  The object pushed for an element \<open>el\<close> with class name \<open>cn\<close>; \<open>hid\<close> and \<open>isImage\<close> are
  the \<^verbatim>\<open>isHidden\<close> and \<^verbatim>\<open>isImage\<close> of the caller.
\<close>

definition mkComponent :: "string option \<Rightarrow> ielem \<Rightarrow> string \<Rightarrow> bool \<Rightarrow> bool \<Rightarrow> component" where
  "mkComponent sectionType el cn hid isImage =
     (let inlineStyle = (case styleAttr el of None \<Rightarrow> [] | Some s \<Rightarrow> s);
          borderC = rgbToHex (styles el ''borderColor'')
      in \<lparr>elementC = toLowerCase (tagName el),
          selector = getElementSelector el,
          className = cn,
          textColor = rgbToHex (styles el ''color''),
          textVar = getCSSVariable el ''color'',
          bgColor = rgbToHex (styles el ''backgroundColor''),
          bgVar = getCSSVariable el ''background-color'',
          borderColor = (if borderC \<noteq> ''transparent'' then Some borderC else None),
          fileHint = guessFileLocation (Some cn) sectionType,
          fontSizeC = styles el ''fontSize'',
          fontWeightC = styles el ''fontWeight'',
          display = styles el ''display'',
          position = orNull ''static'' (styles el ''position''),
          width = styles el ''width'',
          height = styles el ''height'',
          aspectRatio = orNull ''auto'' (styles el ''aspectRatio''),
          objectFit = (if tagName el = ''IMG'' then orNull ''fill'' (styles el ''objectFit'') else None),
          paddingBottom = orNull ''0px'' (styles el ''paddingBottom''),
          ratioVar = map_option trim (leftmost ratioHere inlineStyle),
          visibility = orNull ''visible'' (styles el ''visibility''),
          opacity = orNull ''1'' (styles el ''opacity''),
          isHidden = hid,
          imgSrc = (if isImage
                    then Some (if src el \<noteq> []
                               then (if length (src el) > 80 then take 80 (src el) @ ''...'' else src el)
                               else ''NO SRC'')
                    else None),
          imgNaturalSize = (if isImage
                            then Some (if naturalWidth el \<noteq> 0 \<and> naturalHeight el \<noteq> 0
                                       then decimal (naturalWidth el) @ [CHR 0xD7] @ decimal (naturalHeight el)
                                       else ''not loaded'')
                            else None),
          imgLoaded = (if isImage then Some (complete el \<and> naturalHeight el > 0) else None)\<rparr>)"

subsection \<open>The component inspector: \<^verbatim>\<open>scanSectionComponents\<close>\<close>

definition selectors :: "selector list" where
  "selectors =
     [Tag ''h1'', Tag ''h2'', Tag ''h3'', Tag ''h4'', Tag ''h5'', Tag ''h6'',
      Tag ''p'', Tag ''blockquote'', Class ''rte'',
      ClassContains ''card'', ClassContains ''item'', ClassContains ''block'',
      Class ''media'', ClassContains ''media'', Tag ''img'', Tag ''picture'', Tag ''video'',
      ClassContains ''badge'', ClassContains ''tag'', ClassContains ''pill'',
      ClassContains ''button'', ClassContains ''btn'',
      ClassContains ''icon'', ClassContains ''star'',
      ClassContains ''nav'', ClassContains ''dot'',
      ClassContains ''customer'', ClassContains ''service'',
      ClassContains ''quote'', ClassContains ''text'',
      ClassContains ''heading'', ClassContains ''title'', ClassContains ''description'',
      Tag ''input'', Tag ''textarea'', Tag ''select'', Tag ''label'']"

text \<open>
  The \<^verbatim>\<open>Set\<close> \<^verbatim>\<open>seen\<close> holds elements and class names; they are kept apart here. A
  component is stored with the position of its element among the descendants, which the
  report itself does not show.
\<close>

record scanState =
  seenEl :: "nat set"
  seenClass :: "string set"
  components :: "(nat \<times> component) list"

definition isMediaElement :: "ielem \<Rightarrow> ielem list \<Rightarrow> bool" where
  "isMediaElement el anc =
     (tagName el = ''IMG'' \<or> ''media'' \<in> set (classList el) \<or> closest (Class ''media'') el anc)"

text \<open>
  The class name of an element: its primary class, and \<^verbatim>\<open>img\<close> for an image without one.
\<close>

definition classNameOf :: "ielem \<Rightarrow> string option" where
  "classNameOf el =
     (case getPrimaryClass el of
        None \<Rightarrow> if tagName el = ''IMG'' then Some ''img'' else None
      | Some c \<Rightarrow> Some c)"

text \<open>The body of \<^verbatim>\<open>elements.forEach\<close>, for the element at position \<open>i\<close>.\<close>

definition visit :: "string option \<Rightarrow> nat \<times> ielem \<times> ielem list \<Rightarrow> scanState \<Rightarrow> scanState" where
  "visit sectionType item st =
     (case item of (i, el, anc) \<Rightarrow>
        if i \<in> seenEl st then st
        else if closest (Id DEBUG_MODAL_ID) el anc then st
        else
          let isMedia = isMediaElement el anc;
              hid = (hidden el \<and> tagName el \<noteq> ''BODY'')
          in if hid \<and> \<not> isMedia then st
             else (case classNameOf el of
                     None \<Rightarrow> st
                   | Some cn \<Rightarrow>
                       if cn \<in> seenClass st \<and> tagName el \<noteq> ''IMG'' then st
                       else
                         let st = st\<lparr>seenClass := insert cn (seenClass st),
                                     seenEl := insert i (seenEl st)\<rparr>;
                             isImage = (tagName el = ''IMG'');
                             c = mkComponent sectionType el cn hid isImage
                         in if textColor c \<noteq> ''transparent'' \<or> bgColor c \<noteq> ''transparent''
                               \<or> isImage \<or> isMedia
                            then st\<lparr>components := components st @ [(i, c)]\<rparr>
                            else st))"

text \<open>\<^verbatim>\<open>section.querySelectorAll(selector).forEach(...)\<close> for one selector of the list.\<close>

definition scanSelector ::
    "string option \<Rightarrow> (nat \<times> ielem \<times> ielem list) list \<Rightarrow> selector \<Rightarrow> scanState \<Rightarrow> scanState" where
  "scanSelector sectionType items sel st =
     fold (visit sectionType) (filter (\<lambda>(i, el, anc). matches sel el) items) st"

definition scanLoop :: "string option \<Rightarrow> (nat \<times> ielem \<times> ielem list) list \<Rightarrow> scanState" where
  "scanLoop sectionType items =
     fold (scanSelector sectionType items) selectors
       \<lparr>seenEl = {}, seenClass = {}, components = []\<rparr>"

text \<open>The descendants of a section with their positions.\<close>

definition sectionItems :: "ielem list \<Rightarrow> node \<Rightarrow> (nat \<times> ielem \<times> ielem list) list" where
  "sectionItems outer section = enumerate 0 (descendants outer section)"

text \<open>
  \<^verbatim>\<open>scanSectionComponents(section)\<close>. \<open>sectionType\<close> is the value of
  \<^verbatim>\<open>getSectionType(section)\<close>, which only the file hints use, and \<open>outer\<close> are the ancestors
  of the section in the document.
\<close>

definition scanSectionComponents :: "string option \<Rightarrow> ielem list \<Rightarrow> node \<Rightarrow> fact list" where
  "scanSectionComponents sectionType outer section =
     SectionFact
       \<lparr>sElement = ''Section Container'',
        sSelector = getElementSelector (attrs section),
        sClassName = getPrimaryClass (attrs section),
        sTextColor = rgbToHex (styles (attrs section) ''color''),
        sBgColor = rgbToHex (styles (attrs section) ''backgroundColor''),
        sFileHint = guessFileLocation (getPrimaryClass (attrs section)) sectionType,
        isSection = True\<rparr>
     # map (\<lambda>(i, c). ComponentFact c) (components (scanLoop sectionType (sectionItems outer section)))"

subsection \<open>The component inspector: notions used to state its properties\<close>

text \<open>
  The checks of the loop body that depend on the element alone: it is outside the
  inspector's own dialog, it is visible or media, and it has a class name.
\<close>

definition eligible :: "ielem \<Rightarrow> ielem list \<Rightarrow> bool" where
  "eligible el anc \<longleftrightarrow>
     \<not> closest (Id DEBUG_MODAL_ID) el anc
     \<and> \<not> (hidden el \<and> tagName el \<noteq> ''BODY'' \<and> \<not> isMediaElement el anc)
     \<and> classNameOf el \<noteq> None"

definition clsName :: "ielem \<Rightarrow> string" where
  "clsName el = (case classNameOf el of None \<Rightarrow> [] | Some cn \<Rightarrow> cn)"

text \<open>The entry that the loop body builds for an element, and the test that it is pushed.\<close>

definition componentOf :: "string option \<Rightarrow> ielem \<Rightarrow> component" where
  "componentOf sectionType el =
     mkComponent sectionType el (clsName el) (hidden el \<and> tagName el \<noteq> ''BODY'') (tagName el = ''IMG'')"

definition shown :: "string option \<Rightarrow> ielem \<Rightarrow> ielem list \<Rightarrow> bool" where
  "shown sectionType el anc \<longleftrightarrow>
     textColor (componentOf sectionType el) \<noteq> ''transparent''
     \<or> bgColor (componentOf sectionType el) \<noteq> ''transparent''
     \<or> tagName el = ''IMG'' \<or> isMediaElement el anc"

text \<open>The position in the selector list of the first selector that an element matches.\<close>

definition firstSelector :: "ielem \<Rightarrow> nat" where
  "firstSelector el = length (takeWhile (\<lambda>sel. \<not> matches sel el) selectors)"

text \<open>The \<^verbatim>\<open>element\<close> field of an entry of the report.\<close>

fun factElement :: "fact \<Rightarrow> string" where
  "factElement (SectionFact s) = sElement s"
| "factElement (ComponentFact c) = elementC c"

text \<open>An element with the given tag, class, text colour and background, and a section to scan.\<close>

definition exampleElem :: "string \<Rightarrow> string \<Rightarrow> string \<Rightarrow> string \<Rightarrow> ielem" where
  "exampleElem tg cls col bg =
     \<lparr>hidden = False, tagName = tg, elId = [], classAttr = cls, classIsString = True,
      styleAttr = None,
      styles = (\<lambda>p. if p = ''color'' then col
                     else if p = ''backgroundColor'' then bg
                     else if p = ''borderColor'' then col
                     else if p = ''display'' then ''block''
                     else if p = ''position'' then ''static''
                     else if p = ''visibility'' then ''visible''
                     else if p = ''opacity'' then ''1''
                     else if p = ''aspectRatio'' then ''auto''
                     else if p = ''objectFit'' then ''fill''
                     else if p = ''paddingBottom'' then ''0px''
                     else ''16px''),
      src = [], naturalWidth = 0, naturalHeight = 0, complete = False\<rparr>"

definition exampleSection :: node where
  "exampleSection =
     Node (exampleElem ''DIV'' ''shopify-section hero'' ''rgb(0, 0, 0)'' ''rgba(0, 0, 0, 0)'')
       [Node (exampleElem ''P'' ''intro'' ''rgb(0, 0, 0)'' ''rgba(0, 0, 0, 0)'') [],
        Node (exampleElem ''H2'' ''headline'' ''rgb(0, 0, 0)'' ''rgba(0, 0, 0, 0)'') [],
        Node (exampleElem ''DIV'' ''wrapper'' ''rgb(0, 0, 0)'' ''rgb(255, 255, 255)'') [],
        Node (exampleElem ''DIV'' ''wrapper'' ''rgb(0, 0, 0)'' ''rgb(255, 255, 255)'') [],
        Node (exampleElem ''IMG'' ''photo'' ''rgb(0, 0, 0)'' ''rgba(0, 0, 0, 0)'') [],
        Node ((exampleElem ''IMG'' ''photo'' ''rgb(0, 0, 0)'' ''rgba(0, 0, 0, 0)'')\<lparr>hidden := True\<rparr>) [],
        Node ((exampleElem ''SPAN'' ''badge'' ''rgb(0, 0, 0)'' ''rgba(0, 0, 0, 0)'')\<lparr>hidden := True\<rparr>) []]"

text \<open>
  An element is blocked in a state when visiting it changes nothing: it was visited
  before, or it is not eligible, or its class name was seen and it is not an image.
\<close>

definition blocked :: "scanState \<Rightarrow> nat \<times> ielem \<times> ielem list \<Rightarrow> bool" where
  "blocked st item \<longleftrightarrow>
     (case item of (i, el, anc) \<Rightarrow>
        i \<in> seenEl st \<or> \<not> eligible el anc \<or> (clsName el \<in> seenClass st \<and> tagName el \<noteq> ''IMG''))"

text \<open>What holds of the state throughout a scan of the items.\<close>

definition scanInv :: "string option \<Rightarrow> (nat \<times> ielem \<times> ielem list) list \<Rightarrow> scanState \<Rightarrow> bool" where
  "scanInv sT items st \<longleftrightarrow>
     (\<forall>(i, c)\<in>set (components st).
        i \<in> seenEl st \<and> className c \<in> seenClass st
        \<and> (\<exists>el anc. (i, el, anc) \<in> set items \<and> eligible el anc \<and> shown sT el anc
              \<and> c = componentOf sT el))
     \<and> distinct (map fst (components st))
     \<and> distinct (map (\<lambda>(i, c). className c) (filter (\<lambda>(i, c). elementC c \<noteq> ''img'') (components st)))
     \<and> (\<forall>(i, el, anc)\<in>set items. tagName el = ''IMG'' \<and> i \<in> seenEl st \<longrightarrow> i \<in> fst ` set (components st))"

text \<open>A media element with its \<open>hidden\<close> flag cleared.\<close>

definition unhideMedia :: "nat \<times> ielem \<times> ielem list \<Rightarrow> nat \<times> ielem \<times> ielem list" where
  "unhideMedia item =
     (case item of (i, el, anc) \<Rightarrow>
        (i, if isMediaElement el anc then el\<lparr>hidden := False\<rparr> else el, anc))"

text \<open>Two states that differ at most in the \<open>isHidden\<close> fields of their components.\<close>

definition sameReport :: "scanState \<Rightarrow> scanState \<Rightarrow> bool" where
  "sameReport st st' \<longleftrightarrow>
     seenEl st = seenEl st' \<and> seenClass st = seenClass st'
     \<and> map fst (components st) = map fst (components st')"

text \<open>
  The order of the report: by the first selector of the list that the element matches, and
  by document position among elements with the same first selector.
\<close>

definition precedes :: "(ielem \<times> ielem list) list \<Rightarrow> nat \<Rightarrow> nat \<Rightarrow> bool" where
  "precedes ds i j \<longleftrightarrow>
     firstSelector (fst (ds ! i)) < firstSelector (fst (ds ! j))
     \<or> (firstSelector (fst (ds ! i)) = firstSelector (fst (ds ! j)) \<and> i < j)"

subsection \<open>The section enumerator: \<^verbatim>\<open>init\<close>\<close>

definition isSectionEl :: "ielem \<Rightarrow> bool" where
  "isSectionEl e = matches (Class ''shopify-section'') e"

definition isButtonEl :: "ielem \<Rightarrow> bool" where
  "isButtonEl e = matches (Class ''section-debug-btn'') e"

text \<open>\<^verbatim>\<open>section.querySelector('.section-debug-btn')\<close> is not \<^verbatim>\<open>null\<close>.\<close>

definition hasButton :: "node \<Rightarrow> bool" where
  "hasButton sec = list_ex (\<lambda>(el, anc). isButtonEl el) (descendants [] sec)"

text \<open>
  An element of the document is addressed by its path from the root, a list of child
  positions. \<^verbatim>\<open>document.querySelectorAll(sel)\<close> is a static list: the paths of the matching
  elements in document order, taken before the loop changes the document.
\<close>

fun nodeAt :: "node \<Rightarrow> nat list \<Rightarrow> node option" where
  "nodeAt n [] = Some n"
| "nodeAt (Node e ks) (i # p) = (if i < length ks then nodeAt (ks ! i) p else None)"

fun updateAt :: "nat list \<Rightarrow> (node \<Rightarrow> node) \<Rightarrow> node \<Rightarrow> node" where
  "updateAt [] g n = g n"
| "updateAt (i # p) g (Node e ks) =
     (if i < length ks then Node e (ks[i := updateAt p g (ks ! i)]) else Node e ks)"

fun pathsWhere :: "(ielem \<Rightarrow> bool) \<Rightarrow> node \<Rightarrow> nat list list"
  and pathsKids :: "(ielem \<Rightarrow> bool) \<Rightarrow> nat \<Rightarrow> node list \<Rightarrow> nat list list" where
  "pathsWhere P (Node e ks) = (if P e then [[]] else []) @ pathsKids P 0 ks"
| "pathsKids P i [] = []"
| "pathsKids P i (k # ks) = map ((#) i) (pathsWhere P k) @ pathsKids P (Suc i) ks"

text \<open>
  \<^verbatim>\<open>createDebugButton\<close>: a \<^verbatim>\<open>button\<close> of class \<^verbatim>\<open>section-debug-btn\<close> holding the icon and a
  \<^verbatim>\<open>span\<close> for the section type. What the browser decides about a new element (its layout
  and computed style) is given by \<open>r\<close>, by tag.
\<close>

definition created :: "(string \<Rightarrow> ielem) \<Rightarrow> string \<Rightarrow> string \<Rightarrow> bool \<Rightarrow> ielem" where
  "created r tg cls html =
     (r tg)\<lparr>tagName := tg, elId := [], classAttr := cls, classIsString := html, styleAttr := None\<rparr>"

definition createDebugButton :: "(string \<Rightarrow> ielem) \<Rightarrow> node" where
  "createDebugButton r =
     Node (created r ''BUTTON'' ''section-debug-btn'' True)
       [Node (created r ''svg'' [] False)
          [Node (created r ''circle'' [] False) [], Node (created r ''path'' [] False) []],
        Node (created r ''SPAN'' ''section-debug-btn__type'' True) []]"

text \<open>
  \<^verbatim>\<open>section.style.position = 'relative'\<close>: the computed position becomes \<^verbatim>\<open>relative\<close> and
  the style attribute becomes the new serialisation of the inline style, \<open>restyle\<close> of the
  old one.
\<close>

definition setPositionRelative :: "(string option \<Rightarrow> string) \<Rightarrow> ielem \<Rightarrow> ielem" where
  "setPositionRelative restyle e =
     e\<lparr>styles := (styles e)(''position'' := ''relative''), styleAttr := Some (restyle (styleAttr e))\<rparr>"

text \<open>What the loop body does to a section that has no button yet.\<close>

fun inject :: "(string option \<Rightarrow> string) \<Rightarrow> (string \<Rightarrow> ielem) \<Rightarrow> node \<Rightarrow> node" where
  "inject restyle r (Node e ks) =
     Node (if styles e ''position'' = ''static'' then setPositionRelative restyle e else e)
          (ks @ [createDebugButton r])"

text \<open>The body of \<^verbatim>\<open>sections.forEach\<close> for the section at path \<open>p\<close>.\<close>

definition initSection ::
    "(string option \<Rightarrow> string) \<Rightarrow> (string \<Rightarrow> ielem) \<Rightarrow> nat list \<Rightarrow> node \<Rightarrow> node" where
  "initSection restyle r p doc =
     (case nodeAt doc p of
        None \<Rightarrow> doc
      | Some sec \<Rightarrow> if hasButton sec then doc else updateAt p (inject restyle r) doc)"

definition init :: "(string option \<Rightarrow> string) \<Rightarrow> (string \<Rightarrow> ielem) \<Rightarrow> node \<Rightarrow> node" where
  "init restyle r doc = fold (initSection restyle r) (pathsWhere isSectionEl doc) doc"

text \<open>
  The same as one pass over the tree: a section without a button in its subtree gets one
  after its children.
\<close>

fun initRec :: "(string option \<Rightarrow> string) \<Rightarrow> (string \<Rightarrow> ielem) \<Rightarrow> node \<Rightarrow> node" where
  "initRec restyle r (Node e ks) =
     (if isSectionEl e \<and> \<not> hasButton (Node e ks)
      then Node (if styles e ''position'' = ''static'' then setPositionRelative restyle e else e)
                (map (initRec restyle r) ks @ [createDebugButton r])
      else Node e (map (initRec restyle r) ks))"

text \<open>The number of debug buttons among the children of a node.\<close>

definition buttonCount :: "node \<Rightarrow> nat" where
  "buttonCount n = length (filter (\<lambda>k. isButtonEl (attrs k)) (kids n))"

text \<open>Every section of the tree, the root included, has a button in its subtree.\<close>

fun settled :: "node \<Rightarrow> bool" where
  "settled (Node e ks) = ((\<not> isSectionEl e \<or> hasButton (Node e ks)) \<and> list_all settled ks)"

text \<open>A page with three sections, one of them inside another, and what the browser gives a new element.\<close>

definition exampleDoc :: node where
  "exampleDoc =
     Node (exampleElem ''BODY'' [] ''rgb(0, 0, 0)'' ''rgb(255, 255, 255)'')
       [exampleSection,
        Node (exampleElem ''DIV'' ''shopify-section outer'' ''rgb(0, 0, 0)'' ''rgba(0, 0, 0, 0)'')
          [Node (exampleElem ''DIV'' ''shopify-section inner'' ''rgb(0, 0, 0)'' ''rgba(0, 0, 0, 0)'') []]]"

definition exampleRender :: "string \<Rightarrow> ielem" where
  "exampleRender tg = exampleElem tg [] ''rgb(0, 0, 0)'' ''rgba(0, 0, 0, 0)''"

definition exampleRestyle :: "string option \<Rightarrow> string" where
  "exampleRestyle s = (case s of None \<Rightarrow> ''position: relative;'' | Some t \<Rightarrow> t @ '' position: relative;'')"

text \<open>
  The elements that \<^verbatim>\<open>scanStyles\<close> looks at, and the test that an element's font family
  goes into the font-family table.
\<close>

definition scannedStyle :: "selem list \<Rightarrow> selem list" where
  "scannedStyle bodyDescendants =
     filter (\<lambda>el. \<not> inStyleModal el \<and> \<not> (hidden el \<and> tagName el \<noteq> ''BODY''))
       (notTags [''script'', ''style'', ''svg'', ''path'', ''circle'', ''line'', ''rect'', ''polygon'']
          bodyDescendants)"

definition oddFont :: "selem \<Rightarrow> bool" where
  "oddFont el \<longleftrightarrow>
     styles el ''fontFamily'' \<noteq> [] \<and> \<not> isExpectedFontFamily (styles el ''fontFamily'')"

text \<open>
  An element is a candidate of the scan when some selector of the list matches it and it
  passes the checks of the loop body that depend on the element alone.
\<close>

definition candidate :: "ielem \<Rightarrow> ielem list \<Rightarrow> bool" where
  "candidate el anc \<longleftrightarrow> eligible el anc \<and> list_ex (\<lambda>sel. matches sel el) selectors"

text \<open>
  The descendant at position \<open>i\<close> is the first candidate with its class name: no candidate
  with the same class name comes before it in the order of the scan.
\<close>

definition firstOfClass :: "(ielem \<times> ielem list) list \<Rightarrow> nat \<Rightarrow> bool" where
  "firstOfClass ds i \<longleftrightarrow>
     list_all (\<lambda>j. candidate (fst (ds ! j)) (snd (ds ! j))
                    \<and> clsName (fst (ds ! j)) = clsName (fst (ds ! i)) \<longrightarrow> \<not> precedes ds j i)
       [0..<length ds]"

text \<open>
  The elements whose first selector is among the first \<open>n\<close> of the list, in the order in
  which the scan comes to them, and the class names that a list of elements takes.
\<close>

definition scanSequence ::
    "(nat \<times> ielem \<times> ielem list) list \<Rightarrow> nat \<Rightarrow> (nat \<times> ielem \<times> ielem list) list" where
  "scanSequence items n =
     concat (map (\<lambda>k. filter (\<lambda>(i, el, anc). firstSelector el = k) items) [0..<n])"

definition takenClasses :: "(nat \<times> ielem \<times> ielem list) list \<Rightarrow> string set" where
  "takenClasses xs = set (map (\<lambda>(i, el, anc). clsName el) (filter (\<lambda>(i, el, anc). eligible el anc) xs))"


text \<open>
  A section whose elements are all hidden: a media wrapper holding a picture without class
  and a badge, a second media wrapper, and a badge outside them.
\<close>

definition exampleGallery :: node where
  "exampleGallery =
     Node (exampleElem ''DIV'' ''shopify-section gallery'' ''rgb(0, 0, 0)'' ''rgba(0, 0, 0, 0)'')
       [Node ((exampleElem ''DIV'' ''media'' ''rgb(0, 0, 0)'' ''rgba(0, 0, 0, 0)'')\<lparr>hidden := True\<rparr>)
          [Node ((exampleElem ''PICTURE'' [] ''rgb(0, 0, 0)'' ''rgba(0, 0, 0, 0)'')\<lparr>hidden := True\<rparr>) [],
           Node ((exampleElem ''SPAN'' ''badge'' ''rgb(0, 0, 0)'' ''rgba(0, 0, 0, 0)'')\<lparr>hidden := True\<rparr>) []],
        Node ((exampleElem ''DIV'' ''media'' ''rgb(0, 0, 0)'' ''rgba(0, 0, 0, 0)'')\<lparr>hidden := True\<rparr>) [],
        Node ((exampleElem ''SPAN'' ''badge'' ''rgb(0, 0, 0)'' ''rgba(0, 0, 0, 0)'')\<lparr>hidden := True\<rparr>) []]"

section \<open>Properties\<close>

subsection \<open>File hints\<close>

lemma firstMatch_first:
  "i < length ps \<Longrightarrow> prefix (fst (ps ! i)) cn \<Longrightarrow> \<forall>j<i. \<not> prefix (fst (ps ! j)) cn
     \<Longrightarrow> firstMatch ps cn = Some (snd (ps ! i))"
proof (induction ps arbitrary: i)
  case Nil
  then show ?case by simp
next
  case (Cons p ps)
  obtain regex fl where p: "p = (regex, fl)" by (cases p)
  show ?case
  proof (cases i)
    case 0
    with Cons.prems p show ?thesis by simp
  next
    case (Suc k)
    from Cons.prems Suc have "\<not> prefix (fst ((p # ps) ! 0)) cn" by blast
    then have np: "\<not> prefix regex cn" using p by simp
    have "\<forall>j<k. \<not> prefix (fst (ps ! j)) cn"
    proof (intro allI impI)
      fix j assume "j < k"
      then have "Suc j < i" using Suc by simp
      with Cons.prems(3) have "\<not> prefix (fst ((p # ps) ! Suc j)) cn" by blast
      then show "\<not> prefix (fst (ps ! j)) cn" by simp
    qed
    with Cons.IH [of k] Cons.prems Suc have "firstMatch ps cn = Some (snd (ps ! k))" by simp
    with np p Suc show ?thesis by simp
  qed
qed

lemma firstMatch_none:
  "\<forall>p\<in>set ps. \<not> prefix (fst p) cn \<Longrightarrow> firstMatch ps cn = None"
  by (induction ps) auto

text \<open>
  Claim C6. For a class name (a non-empty string), the file hint is the file of the first
  pattern of the table that is a prefix of the class name; in particular a class name that
  begins with \<^verbatim>\<open>testimonial\<close> resolves to the testimonials section. When no pattern
  matches, a known section type \<open>t\<close> gives \<^verbatim>\<open>sections/t.liquid\<close>, and without a section
  type the result is the fixed default string.
\<close>

theorem guessFileLocation_resolution:
  assumes "cn \<noteq> []"
  shows "(\<forall>i<length patterns.
            prefix (fst (patterns ! i)) cn \<and> (\<forall>j<i. \<not> prefix (fst (patterns ! j)) cn)
            \<longrightarrow> guessFileLocation (Some cn) st = Some (snd (patterns ! i)))
       \<and> (prefix ''testimonial'' cn
            \<longrightarrow> guessFileLocation (Some cn) st = Some ''sections/testimonials.liquid'')
       \<and> ((\<forall>p\<in>set patterns. \<not> prefix (fst p) cn) \<longrightarrow>
            (\<forall>t. t \<noteq> [] \<longrightarrow>
               guessFileLocation (Some cn) (Some t) = Some (''sections/'' @ t @ ''.liquid''))
            \<and> guessFileLocation (Some cn) None = Some defaultFileHint
            \<and> guessFileLocation (Some cn) (Some []) = Some defaultFileHint)"
proof (intro conjI allI impI)
  fix i
  assume "i < length patterns"
    and "prefix (fst (patterns ! i)) cn \<and> (\<forall>j<i. \<not> prefix (fst (patterns ! j)) cn)"
  then have "firstMatch patterns cn = Some (snd (patterns ! i))"
    using firstMatch_first [of i patterns cn] by blast
  with assms show "guessFileLocation (Some cn) st = Some (snd (patterns ! i))"
    by (simp add: guessFileLocation_def)
next
  assume "prefix ''testimonial'' cn"
  then have "firstMatch patterns cn = Some ''sections/testimonials.liquid''"
    by (simp add: patterns_def)
  with assms show "guessFileLocation (Some cn) st = Some ''sections/testimonials.liquid''"
    by (simp add: guessFileLocation_def)
next
  fix t :: string
  assume "\<forall>p\<in>set patterns. \<not> prefix (fst p) cn" and "t \<noteq> []"
  then show "guessFileLocation (Some cn) (Some t) = Some (''sections/'' @ t @ ''.liquid'')"
    using assms firstMatch_none [of patterns cn] by (simp add: guessFileLocation_def)
next
  assume "\<forall>p\<in>set patterns. \<not> prefix (fst p) cn"
  then show "guessFileLocation (Some cn) None = Some defaultFileHint"
    using assms firstMatch_none [of patterns cn] by (simp add: guessFileLocation_def)
next
  assume "\<forall>p\<in>set patterns. \<not> prefix (fst p) cn"
  then show "guessFileLocation (Some cn) (Some []) = Some defaultFileHint"
    using assms firstMatch_none [of patterns cn] by (simp add: guessFileLocation_def)
qed

theorem guessFileLocation_resolution_witness:
  "guessFileLocation (Some ''testimonial-card'') (Some ''hero'') = Some ''sections/testimonials.liquid''
   \<and> guessFileLocation (Some ''testimonial-card'') None = Some (snd (patterns ! 0))
   \<and> guessFileLocation (Some ''hero-title'') (Some ''hero'') = Some ''sections/hero.liquid''
   \<and> guessFileLocation (Some ''hero-title'') None = Some defaultFileHint"
proof -
  have a: "''testimonial-card'' \<noteq> []" and c: "''hero-title'' \<noteq> []"
    by simp_all
  have p1: "prefix ''testimonial'' ''testimonial-card''" by simp
  have i0: "(0::nat) < length patterns \<and> prefix (fst (patterns ! 0)) ''testimonial-card''"
    by (simp add: patterns_def)
  have none: "\<forall>p\<in>set patterns. \<not> prefix (fst p) ''hero-title''"
    by (simp add: patterns_def)
  have h: "''hero'' \<noteq> []" by simp
  from guessFileLocation_resolution [OF a, of "Some ''hero''"] p1
  have 1: "guessFileLocation (Some ''testimonial-card'') (Some ''hero'')
             = Some ''sections/testimonials.liquid''" by blast
  from guessFileLocation_resolution [OF a, of None] i0
  have 2: "guessFileLocation (Some ''testimonial-card'') None = Some (snd (patterns ! 0))"
    by blast
  from guessFileLocation_resolution [OF c, of None] none h
  have 3: "guessFileLocation (Some ''hero-title'') (Some ''hero'') = Some ''sections/hero.liquid''"
    and 4: "guessFileLocation (Some ''hero-title'') None = Some defaultFileHint"
    by auto
  from 1 2 3 4 show ?thesis by blast
qed

subsection \<open>Spacing scale\<close>

lemma isConsistentSpacing_iff:
  "isConsistentSpacing v \<longleftrightarrow> (\<exists>e\<in>set spacingValues. \<bar>Math_round v - e\<bar> \<le> 2)"
  by (simp add: isConsistentSpacing_def list_ex_iff)

lemma Math_round_pos: "0 < v \<Longrightarrow> 0 \<le> Math_round v"
  unfolding Math_round_def by (simp add: le_floor_iff)

lemma Math_round_mono: "x \<le> y \<Longrightarrow> Math_round x \<le> Math_round y"
  unfolding Math_round_def by (simp add: floor_mono)

lemma Math_round_of_int: "Math_round (of_int n) = n"
  unfolding Math_round_def by linarith

lemma raw_within:
  assumes "e \<in> set spacingValues" "\<bar>v - of_int e\<bar> \<le> 2"
  shows "isConsistentSpacing v"
proof -
  have lo: "of_int (e - 2) \<le> v" and hi: "v \<le> of_int (e + 2)" using assms(2) by auto
  have "Math_round (of_int (e - 2)) \<le> Math_round v"
    using lo by (rule Math_round_mono)
  moreover have "Math_round v \<le> Math_round (of_int (e + 2))"
    using hi by (rule Math_round_mono)
  ultimately have "\<bar>Math_round v - e\<bar> \<le> 2" unfolding Math_round_of_int by simp
  with assms(1) show ?thesis unfolding isConsistentSpacing_iff by blast
qed

lemma near_entry: "e \<in> set spacingValues \<Longrightarrow> e - 2 \<le> r \<Longrightarrow> r \<le> e + 2
    \<Longrightarrow> \<exists>e\<in>set spacingValues. \<bar>r - e\<bar> \<le> 2"
  by (rule bexI [of _ e]) auto

lemma low_band:
  assumes "-2 \<le> r" "r \<le> 34"
  shows "\<exists>e\<in>set spacingValues. \<bar>r - e\<bar> \<le> 2"
proof -
  define e where "e = 4 * ((r + 2) div 4)"
  have b: "e - 2 \<le> r" "r \<le> e + 2" unfolding e_def by presburger+
  have "0 \<le> (r + 2) div 4" "(r + 2) div 4 \<le> 9" using assms by presburger+
  then have "(r + 2) div 4 \<in> set [0..9]" by simp
  then have "(r + 2) div 4 \<in> {0, 1, 2, 3, 4, 5, 6, 7, 8, 9}" by (simp add: upto.simps)
  then consider "e \<le> 32 \<and> e \<in> set spacingValues" | "e = 36" unfolding e_def spacingValues_def by auto
  then show ?thesis
  proof cases
    case 1
    then show ?thesis using b near_entry by blast
  next
    case 2
    with b assms have "r = 34" by simp
    then show ?thesis by (simp add: spacingValues_def)
  qed
qed

lemma bands_imp: "inScaleBand r \<Longrightarrow> \<exists>e\<in>set spacingValues. \<bar>r - e\<bar> \<le> 2"
  unfolding inScaleBand_def
proof (elim disjE conjE)
  assume "-2 \<le> r" "r \<le> 34" then show ?thesis by (rule low_band)
next
  assume "38 \<le> r" "r \<le> 42" then show ?thesis
    by (intro near_entry [of 40]) (simp_all add: spacingValues_def)
next
  assume "46 \<le> r" "r \<le> 50" then show ?thesis
    by (intro near_entry [of 48]) (simp_all add: spacingValues_def)
next
  assume "54 \<le> r" "r \<le> 58" then show ?thesis
    by (intro near_entry [of 56]) (simp_all add: spacingValues_def)
next
  assume "62 \<le> r" "r \<le> 66" then show ?thesis
    by (intro near_entry [of 64]) (simp_all add: spacingValues_def)
next
  assume "78 \<le> r" "r \<le> 82" then show ?thesis
    by (intro near_entry [of 80]) (simp_all add: spacingValues_def)
next
  assume "94 \<le> r" "r \<le> 98" then show ?thesis
    by (intro near_entry [of 96]) (simp_all add: spacingValues_def)
next
  assume "110 \<le> r" "r \<le> 114" then show ?thesis
    by (intro near_entry [of 112]) (simp_all add: spacingValues_def)
next
  assume "126 \<le> r" "r \<le> 130" then show ?thesis
    by (intro near_entry [of 128]) (simp_all add: spacingValues_def)
qed

lemma imp_bands:
  assumes "e \<in> set spacingValues" "\<bar>r - e\<bar> \<le> 2"
  shows "inScaleBand r"
proof -
  have b: "e - 2 \<le> r" "r \<le> e + 2" using assms(2) by auto
  from assms(1) have "e \<in> {0, 4, 8, 12, 16, 20, 24, 28, 32} \<or> e \<in> {40, 48, 56, 64, 80, 96, 112, 128}"
    by (auto simp: spacingValues_def)
  then show ?thesis
  proof
    assume "e \<in> {0, 4, 8, 12, 16, 20, 24, 28, 32}"
    then have "0 \<le> e" "e \<le> 32" by auto
    with b show ?thesis unfolding inScaleBand_def by simp
  next
    assume "e \<in> {40, 48, 56, 64, 80, 96, 112, 128}"
    then consider "e = 40" | "e = 48" | "e = 56" | "e = 64" | "e = 80" | "e = 96" | "e = 112" | "e = 128"
      by auto
    then show ?thesis using b unfolding inScaleBand_def by cases simp_all
  qed
qed


lemma Math_round_bounds: "of_int (Math_round v) \<le> v + 1 / 2 \<and> v + 1 / 2 < of_int (Math_round v) + 1"
  unfolding Math_round_def by linarith

lemma far_raw_value:
  assumes "\<forall>e\<in>set spacingValues. 5 / 2 < \<bar>v - of_int e\<bar>"
  shows "\<not> isConsistentSpacing v"
proof
  assume "isConsistentSpacing v"
  then obtain e where e: "e \<in> set spacingValues" "\<bar>Math_round v - e\<bar> \<le> 2"
    unfolding isConsistentSpacing_iff by blast
  from e(2) have "\<bar>(of_int (Math_round v) :: rat) - of_int e\<bar> \<le> 2"
    by (metis of_int_abs of_int_diff of_int_le_iff of_int_numeral)
  moreover have "\<bar>v - of_int (Math_round v)\<bar> \<le> 1 / 2"
    using Math_round_bounds [of v] by linarith
  ultimately have "\<bar>v - of_int e\<bar> \<le> 5 / 2" by linarith
  with assms e(1) show False by fastforce
qed

text \<open>
  Claim C5 (amended). \<^verbatim>\<open>isConsistentSpacing\<close> rounds the measured value with \<^verbatim>\<open>Math.round\<close>
  (the nearest integer, a tie going up) and marks a positive value consistent exactly when
  the rounded value is within 2 of some entry of the scale 0, 4, 8, ..., 112, 128: the
  rounded values up to 34 and the bands of width 2 around 40, 48, 56, 64, 80, 96, 112 and
  128. So a value within 2 of an entry is consistent, a value whose rounded value is
  further than 2 from every entry is inconsistent, and so is every value further than 2.5
  from every entry; a value between 2 and 2.5 away can go either way.
\<close>

theorem isConsistentSpacing_scale:
  assumes "0 < v"
  shows "(of_int (Math_round v) \<le> v + 1 / 2 \<and> v + 1 / 2 < of_int (Math_round v) + 1)
       \<and> (isConsistentSpacing v \<longleftrightarrow> (\<exists>e\<in>set spacingValues. \<bar>Math_round v - e\<bar> \<le> 2))
       \<and> ((\<forall>e\<in>set spacingValues. 2 < \<bar>Math_round v - e\<bar>) \<longrightarrow> \<not> isConsistentSpacing v)
       \<and> (isConsistentSpacing v \<longleftrightarrow> 0 \<le> Math_round v \<and> inScaleBand (Math_round v))
       \<and> ((\<exists>e\<in>set spacingValues. \<bar>v - of_int e\<bar> \<le> 2) \<longrightarrow> isConsistentSpacing v)
       \<and> ((\<forall>e\<in>set spacingValues. 5 / 2 < \<bar>v - of_int e\<bar>) \<longrightarrow> \<not> isConsistentSpacing v)"
proof (intro conjI)
  show "of_int (Math_round v) \<le> v + 1 / 2" "v + 1 / 2 < of_int (Math_round v) + 1"
    using Math_round_bounds [of v] by simp_all
  show "isConsistentSpacing v \<longleftrightarrow> (\<exists>e\<in>set spacingValues. \<bar>Math_round v - e\<bar> \<le> 2)"
    by (rule isConsistentSpacing_iff)
  show "(\<forall>e\<in>set spacingValues. 2 < \<bar>Math_round v - e\<bar>) \<longrightarrow> \<not> isConsistentSpacing v"
    unfolding isConsistentSpacing_iff by fastforce
  show "isConsistentSpacing v \<longleftrightarrow> 0 \<le> Math_round v \<and> inScaleBand (Math_round v)"
    unfolding isConsistentSpacing_iff
    using Math_round_pos [OF assms] bands_imp imp_bands by blast
  show "(\<exists>e\<in>set spacingValues. \<bar>v - of_int e\<bar> \<le> 2) \<longrightarrow> isConsistentSpacing v"
    using raw_within by blast
  show "(\<forall>e\<in>set spacingValues. 5 / 2 < \<bar>v - of_int e\<bar>) \<longrightarrow> \<not> isConsistentSpacing v"
    using far_raw_value by blast
qed

theorem isConsistentSpacing_scale_witness:
  "isConsistentSpacing 18 \<and> isConsistentSpacing (45 / 2) \<and> \<not> isConsistentSpacing 36
   \<and> \<not> isConsistentSpacing (209 / 2)
   \<and> Math_round (69 / 2) = 35 \<and> \<not> isConsistentSpacing (69 / 2)
   \<and> Math_round (75 / 2) = 38 \<and> isConsistentSpacing (75 / 2)
   \<and> Math_round (172 / 5) = 34 \<and> isConsistentSpacing (172 / 5)"
proof -
  have r: "Math_round 18 = 18" "Math_round (45 / 2) = 23" "Math_round 36 = 36"
    "Math_round (209 / 2) = 105" "Math_round (69 / 2) = 35" "Math_round (75 / 2) = 38"
    "Math_round (172 / 5) = 34"
    by (simp_all add: Math_round_def floor_eq_iff)
  have b: "inScaleBand 18" "inScaleBand 23" "\<not> inScaleBand 36" "\<not> inScaleBand 105"
    "\<not> inScaleBand 35" "inScaleBand 38" "inScaleBand 34"
    by (simp_all add: inScaleBand_def)
  have p: "(0::rat) < 18" "(0::rat) < 45 / 2" "(0::rat) < 36" "(0::rat) < 209 / 2"
    "(0::rat) < 69 / 2" "(0::rat) < 75 / 2" "(0::rat) < 172 / 5"
    by simp_all
  note band = conjunct2 [THEN conjunct2, THEN conjunct2, THEN conjunct1]
  have "isConsistentSpacing 18"
    using isConsistentSpacing_scale [OF p(1), THEN band] r b by simp
  moreover have "isConsistentSpacing (45 / 2)"
    using isConsistentSpacing_scale [OF p(2), THEN band] r b by simp
  moreover have "\<not> isConsistentSpacing 36"
    using isConsistentSpacing_scale [OF p(3), THEN band] r b by simp
  moreover have "\<not> isConsistentSpacing (209 / 2)"
    using isConsistentSpacing_scale [OF p(4), THEN band] r b by simp
  moreover have "\<not> isConsistentSpacing (69 / 2)"
    using isConsistentSpacing_scale [OF p(5), THEN band] r b by simp
  moreover have "isConsistentSpacing (75 / 2)"
    using isConsistentSpacing_scale [OF p(6), THEN band] r b by simp
  moreover have "isConsistentSpacing (172 / 5)"
    using isConsistentSpacing_scale [OF p(7), THEN band] r b by simp
  ultimately show ?thesis using r by simp
qed

text \<open>
  The measured value 34.4 is further than 2 from every entry of the scale (2.4 from 32,
  5.6 from 40), and it is marked consistent, since it rounds to 34.
\<close>

theorem isConsistentSpacing_raw_value_counterexample:
  "list_all (\<lambda>e. 2 < \<bar>172 / 5 - rat_of_int e\<bar>) spacingValues \<and> isConsistentSpacing (172 / 5)"
  by (simp add: isConsistentSpacing_def Math_round_def spacingValues_def)

subsection \<open>Colour normalisation\<close>

lemma below_10: "(d::nat) < 10 \<Longrightarrow> d \<in> {0, 1, 2, 3, 4, 5, 6, 7, 8, 9}"
  by simp presburger

lemma isDigit_char_of: "d < 10 \<Longrightarrow> isDigit (decDigit d)"
  by (drule below_10) (auto simp: isDigit_def decDigit_def)

lemma digitVal_char_of: "d < 10 \<Longrightarrow> digitVal (decDigit d) = d"
  by (drule below_10) (auto simp: digitVal_def decDigit_def upt_rec)

lemma decimal_digits: "\<forall>c\<in>set (decimal n). isDigit c"
proof (induction n rule: decimal.induct)
  case (1 n)
  show ?case
  proof (cases "n < 10")
    case True
    then show ?thesis by (simp add: decimal.simps [of n] isDigit_char_of)
  next
    case False
    have "n mod 10 < 10" by simp
    then have "isDigit (decDigit (n mod 10))" by (rule isDigit_char_of)
    with False 1 show ?thesis by (simp add: decimal.simps [of n])
  qed
qed

lemma decimal_nonempty: "decimal n \<noteq> []"
  by (simp add: decimal.simps [of n])

lemma parseInt_snoc: "parseInt (ds @ [c]) = 10 * parseInt ds + digitVal c"
  by (simp add: parseInt_def)

lemma parseInt_decimal: "parseInt (decimal n) = n"
proof (induction n rule: decimal.induct)
  case (1 n)
  show ?case
  proof (cases "n < 10")
    case True
    then show ?thesis by (simp add: decimal.simps [of n] parseInt_def digitVal_char_of)
  next
    case False
    have "n mod 10 < 10" by simp
    then have "digitVal (decDigit (n mod 10)) = n mod 10" by (rule digitVal_char_of)
    with False 1 show ?thesis by (simp add: decimal.simps [of n] parseInt_snoc)
  qed
qed

lemma takeWhile_decimal:
  assumes "rest = [] \<or> \<not> isDigit (hd rest)"
  shows "takeWhile isDigit (decimal n @ rest) = decimal n"
    and "dropWhile isDigit (decimal n @ rest) = rest"
proof -
  have r: "takeWhile isDigit rest = []" "dropWhile isDigit rest = rest"
    using assms by (cases rest; simp)+
  show "takeWhile isDigit (decimal n @ rest) = decimal n"
    using decimal_digits [of n] r by (simp add: takeWhile_append2)
  show "dropWhile isDigit (decimal n @ rest) = rest"
    using decimal_digits [of n] r by (simp add: dropWhile_append2)
qed

lemma matchHere_channels:
  assumes "rest = [] \<or> \<not> isDigit (hd rest)"
  shows "matchHere (''rgb('' @ decimal r @ '', '' @ decimal g @ '', '' @ decimal b @ rest)
           = Some (decimal r, decimal g, decimal b)"
    and "matchHere (''rgba('' @ decimal r @ '', '' @ decimal g @ '', '' @ decimal b @ rest)
           = Some (decimal r, decimal g, decimal b)"
proof -
  have nd: "\<not> isDigit CHR '',''" by (simp add: isDigit_def)
  have sp: "isSpace CHR '' ''" by (simp add: isSpace_def)
  have ns: "\<And>n tl. dropWhile isSpace (decimal n @ tl) = decimal n @ tl"
  proof -
    fix n tl
    obtain c cs where d: "decimal n = c # cs" using decimal_nonempty [of n] by (cases "decimal n") auto
    then have "isDigit c" using decimal_digits [of n] by simp
    then have "\<not> isSpace c" by (auto simp: isDigit_def isSpace_def)
    with d show "dropWhile isSpace (decimal n @ tl) = decimal n @ tl" by simp
  qed
  have t3: "takeWhile isDigit (decimal b @ rest) = decimal b"
    using takeWhile_decimal(1) [OF assms] .
  have t2: "takeWhile isDigit (decimal g @ '', '' @ decimal b @ rest) = decimal g"
       "dropWhile isDigit (decimal g @ '', '' @ decimal b @ rest) = '', '' @ decimal b @ rest"
    using takeWhile_decimal [of "'', '' @ decimal b @ rest" g] nd by simp_all
  have t1: "takeWhile isDigit (decimal r @ '', '' @ decimal g @ '', '' @ decimal b @ rest) = decimal r"
       "dropWhile isDigit (decimal r @ '', '' @ decimal g @ '', '' @ decimal b @ rest)
          = '', '' @ decimal g @ '', '' @ decimal b @ rest"
    using takeWhile_decimal [of "'', '' @ decimal g @ '', '' @ decimal b @ rest" r] nd by simp_all
  show "matchHere (''rgb('' @ decimal r @ '', '' @ decimal g @ '', '' @ decimal b @ rest)
           = Some (decimal r, decimal g, decimal b)"
    using t1 t2 t3 sp ns decimal_nonempty
    by (simp add: matchHere_def Let_def)
  show "matchHere (''rgba('' @ decimal r @ '', '' @ decimal g @ '', '' @ decimal b @ rest)
           = Some (decimal r, decimal g, decimal b)"
    using t1 t2 t3 sp ns decimal_nonempty
    by (simp add: matchHere_def Let_def)
qed


lemma toUpper_hexDigit_table:
  "map (\<lambda>d. toUpperChar (hexDigit d)) [0 ..< 16] = ''0123456789ABCDEF''"
  by code_simp

lemma toUpper_hexDigit:
  assumes "d < 16"
  shows "toUpperChar (hexDigit d) = ''0123456789ABCDEF'' ! d"
proof -
  have "map (\<lambda>d. toUpperChar (hexDigit d)) [0 ..< 16] ! d = toUpperChar (hexDigit ([0 ..< 16] ! d))"
    using assms by (intro nth_map) simp
  also have "[0 ..< 16] ! d = d" using assms by (metis add_0 nth_upt)
  finally show ?thesis by (simp only: toUpper_hexDigit_table)
qed

lemma toString16_byte:
  assumes "n \<le> 255"
  shows "toUpperCase (padStart 2 CHR ''0'' (toString16 n)) = hexPair n"
proof (cases "n < 16")
  case True
  then have "toString16 n = [hexDigit n]" by (simp add: toString16.simps [of n])
  moreover have "n div 16 = 0" "n mod 16 = n" using True by simp_all
  moreover have "toUpperChar CHR ''0'' = CHR ''0''" by (simp add: toUpperChar_def)
  ultimately show ?thesis
    using toUpper_hexDigit [OF True]
    by (simp add: padStart_def toUpperCase_def hexPair_def numeral_2_eq_2)
next
  case False
  have hi: "n div 16 < 16" using assms by simp
  have lo: "n mod 16 < 16" by simp
  have "toString16 (n div 16) = [hexDigit (n div 16)]"
    using hi by (simp add: toString16.simps [of "n div 16"])
  then have "toString16 n = [hexDigit (n div 16), hexDigit (n mod 16)]"
    using False by (simp add: toString16.simps [of n])
  then show ?thesis
    using toUpper_hexDigit [OF hi] toUpper_hexDigit [OF lo]
    by (simp add: padStart_def toUpperCase_def hexPair_def)
qed

lemma hexPair_chars: "n \<le> 255 \<Longrightarrow> set (hexPair n) \<subseteq> set ''0123456789ABCDEF''"
proof -
  assume "n \<le> 255"
  then have hi: "n div 16 < length ''0123456789ABCDEF''" by simp
  have lo: "n mod 16 < length ''0123456789ABCDEF''" by simp
  show ?thesis unfolding hexPair_def using nth_mem [OF hi] nth_mem [OF lo] by simp
qed

lemma length_hexPair: "length (hexPair n) = 2"
  by (simp add: hexPair_def)

lemma toString16_nonempty: "toString16 n \<noteq> []"
  by (simp add: toString16.simps [of n])

lemma regexMatch_here: "matchHere s = Some m \<Longrightarrow> regexMatch s = Some m"
  by (cases s) simp_all

lemma rgbToHex_matched:
  assumes "regexMatch s = Some (m1, m2, m3)"
    and "parseInt m1 \<le> 255" "parseInt m2 \<le> 255" "parseInt m3 \<le> 255"
    and "s \<noteq> ''rgba(0, 0, 0, 0)''"
  shows "rgbToHex s = CHR ''#'' # hexPair (parseInt m1) @ hexPair (parseInt m2) @ hexPair (parseInt m3)"
proof -
  have "s \<noteq> []" using assms(1) by (auto simp: matchHere_def)
  moreover have "s \<noteq> ''transparent''"
  proof
    assume "s = ''transparent''"
    then have "regexMatch s = None" by (simp add: matchHere_def)
    with assms(1) show False by simp
  qed
  moreover have "toUpperChar CHR ''#'' = CHR ''#''" by (simp add: toUpperChar_def)
  ultimately show ?thesis
    using assms toString16_byte [symmetric]
    by (simp add: rgbToHex_def Let_def toUpperCase_def)
qed

lemma rgbToHex_transparent_iff:
  "rgbToHex s = ''transparent'' \<longleftrightarrow> s = [] \<or> s = ''transparent'' \<or> s = ''rgba(0, 0, 0, 0)''"
proof (cases "s = [] \<or> s = ''transparent'' \<or> s = ''rgba(0, 0, 0, 0)''")
  case True
  then show ?thesis by (auto simp: rgbToHex_def)
next
  case False
  have "rgbToHex s \<noteq> ''transparent''"
  proof (cases "regexMatch s")
    case None
    with False show ?thesis by (simp add: rgbToHex_def)
  next
    case (Some m)
    obtain m1 m2 m3 where "m = (m1, m2, m3)" by (cases m)
    with Some False have "hd (rgbToHex s) = toUpperChar CHR ''#''"
      by (simp add: rgbToHex_def Let_def toUpperCase_def)
    then have "hd (rgbToHex s) = CHR ''#''" by (simp add: toUpperChar_def)
    then show ?thesis by auto
  qed
  with False show ?thesis by simp
qed


lemma padHex_padStart: "padHex n = padStart 2 CHR ''0'' (toString16 n)"
proof (cases "length (toString16 n) = 1")
  case True
  then show ?thesis by (simp add: padHex_def padStart_def Let_def)
next
  case False
  moreover have "length (toString16 n) \<noteq> 0"
    using toString16_nonempty [of n] by simp
  ultimately have "2 \<le> length (toString16 n)" by arith
  then show ?thesis using False by (simp add: padHex_def padStart_def Let_def)
qed

lemma rgbToHexStyle_eq:
  "rgbToHexStyle s =
     (if s = [] \<or> s = ''transparent'' \<or> s = ''rgba(0, 0, 0, 0)'' then None else Some (rgbToHex s))"
proof -
  have "toUpperChar CHR ''#'' = CHR ''#''" by (simp add: toUpperChar_def)
  then show ?thesis
    by (simp add: rgbToHexStyle_def rgbToHex_def padHex_padStart toUpperCase_def Let_def
        split: option.splits prod.splits)
qed

text \<open>
  Claim C1 (amended). The inspector's \<^verbatim>\<open>rgbToHex\<close> returns \<^verbatim>\<open>transparent\<close> exactly for
  the empty string, the keyword \<^verbatim>\<open>transparent\<close> and the string \<^verbatim>\<open>rgba(0, 0, 0, 0)\<close>.
  For every other string \<^verbatim>\<open>rgb(r, g, b...\<close> or \<^verbatim>\<open>rgba(r, g, b...\<close> with channels up to 255
  it returns \<^verbatim>\<open>#\<close> followed by the six uppercase hexadecimal digits of the channels: seven
  characters, the last six among \<^verbatim>\<open>0-9A-F\<close>. The alpha is never read.
\<close>

theorem rgbToHex_normalises:
  "(rgbToHex s = ''transparent'' \<longleftrightarrow> s = [] \<or> s = ''transparent'' \<or> s = ''rgba(0, 0, 0, 0)'')
   \<and> (\<forall>r g b rest.
          r \<le> 255 \<and> g \<le> 255 \<and> b \<le> 255 \<and> (rest = [] \<or> \<not> isDigit (hd rest))
          \<and> (s = ''rgb('' @ decimal r @ '', '' @ decimal g @ '', '' @ decimal b @ rest
               \<or> s = ''rgba('' @ decimal r @ '', '' @ decimal g @ '', '' @ decimal b @ rest)
          \<and> s \<noteq> ''rgba(0, 0, 0, 0)''
          \<longrightarrow> rgbToHex s = CHR ''#'' # hexPair r @ hexPair g @ hexPair b
              \<and> length (rgbToHex s) = 7
              \<and> set (tl (rgbToHex s)) \<subseteq> set ''0123456789ABCDEF'')"
proof (rule conjI [OF rgbToHex_transparent_iff], intro allI, rule impI)
  fix r g b :: nat and rest :: string
  assume h: "r \<le> 255 \<and> g \<le> 255 \<and> b \<le> 255 \<and> (rest = [] \<or> \<not> isDigit (hd rest))
          \<and> (s = ''rgb('' @ decimal r @ '', '' @ decimal g @ '', '' @ decimal b @ rest
               \<or> s = ''rgba('' @ decimal r @ '', '' @ decimal g @ '', '' @ decimal b @ rest)
          \<and> s \<noteq> ''rgba(0, 0, 0, 0)''"
  then have rest: "rest = [] \<or> \<not> isDigit (hd rest)" by blast
  from h have "matchHere s = Some (decimal r, decimal g, decimal b)"
    using matchHere_channels [OF rest, of r g b] by blast
  then have "regexMatch s = Some (decimal r, decimal g, decimal b)"
    by (rule regexMatch_here)
  with h have eq: "rgbToHex s = CHR ''#'' # hexPair r @ hexPair g @ hexPair b"
    using rgbToHex_matched [of s "decimal r" "decimal g" "decimal b"]
    by (simp add: parseInt_decimal)
  have "set (hexPair r @ hexPair g @ hexPair b) \<subseteq> set ''0123456789ABCDEF''"
    using h hexPair_chars [of r] hexPair_chars [of g] hexPair_chars [of b] by simp
  with eq show "rgbToHex s = CHR ''#'' # hexPair r @ hexPair g @ hexPair b
              \<and> length (rgbToHex s) = 7
              \<and> set (tl (rgbToHex s)) \<subseteq> set ''0123456789ABCDEF''"
    by (simp add: length_hexPair)
qed

theorem rgbToHex_normalises_witness:
  "rgbToHex ''rgb(255, 0, 10)'' = ''#FF000A'' \<and> rgbToHex ''rgba(12, 34, 56, 0.5)'' = ''#0C2238''"
proof -
  have 1: "(255::nat) \<le> 255 \<and> (0::nat) \<le> 255 \<and> (10::nat) \<le> 255
      \<and> ('')'' = [] \<or> \<not> isDigit (hd '')''))
      \<and> (''rgb(255, 0, 10)'' = ''rgb('' @ decimal 255 @ '', '' @ decimal 0 @ '', '' @ decimal 10 @ '')''
           \<or> ''rgb(255, 0, 10)'' = ''rgba('' @ decimal 255 @ '', '' @ decimal 0 @ '', '' @ decimal 10 @ '')'')
      \<and> ''rgb(255, 0, 10)'' \<noteq> ''rgba(0, 0, 0, 0)''"
    by code_simp
  have 2: "(12::nat) \<le> 255 \<and> (34::nat) \<le> 255 \<and> (56::nat) \<le> 255
      \<and> ('', 0.5)'' = [] \<or> \<not> isDigit (hd '', 0.5)''))
      \<and> (''rgba(12, 34, 56, 0.5)'' = ''rgb('' @ decimal 12 @ '', '' @ decimal 34 @ '', '' @ decimal 56 @ '', 0.5)''
           \<or> ''rgba(12, 34, 56, 0.5)'' = ''rgba('' @ decimal 12 @ '', '' @ decimal 34 @ '', '' @ decimal 56 @ '', 0.5)'')
      \<and> ''rgba(12, 34, 56, 0.5)'' \<noteq> ''rgba(0, 0, 0, 0)''"
    by code_simp
  have hp: "hexPair 255 = ''FF''" "hexPair 0 = ''00''" "hexPair 10 = ''0A''"
    "hexPair 12 = ''0C''" "hexPair 34 = ''22''" "hexPair 56 = ''38''"
    by code_simp+
  from rgbToHex_normalises [of "''rgb(255, 0, 10)''", THEN conjunct2, rule_format, OF 1]
  have a: "rgbToHex ''rgb(255, 0, 10)'' = ''#FF000A''" by (simp add: hp)
  from rgbToHex_normalises [of "''rgba(12, 34, 56, 0.5)''", THEN conjunct2, rule_format, OF 2]
  have b: "rgbToHex ''rgba(12, 34, 56, 0.5)'' = ''#0C2238''" by (simp add: hp)
  from a b show ?thesis by simp
qed

theorem rgbToHex_alpha_zero_counterexample:
  "rgbToHex ''rgba(255, 0, 0, 0)'' = ''#FF0000'' \<and> rgbToHex ''rgba(255, 0, 0, 0)'' \<noteq> ''transparent''"
  by code_simp

subsection \<open>Copying to the clipboard\<close>

lemma copyToClipboard_never_throws: "\<exists>b. copyToClipboard env txt = Returns b"
  by (auto simp: copyToClipboard_def split: completion.splits)

lemma fallbackCopyText_never_throws: "\<exists>b. fallbackCopyText env txt = Returns b"
  by (auto simp: fallbackCopyText_def split: completion.splits)

lemma copyToClipboardModal_never_throws: "\<exists>f. copyToClipboardModal env txt = Returns f"
proof -
  obtain b where "fallbackCopyText env txt = Returns b"
    using fallbackCopyText_never_throws by blast
  then show ?thesis
    by (simp add: copyToClipboardModal_def split: completion.splits)
qed

lemma copyToClipboard_api_first:
  "hasClipboard env \<Longrightarrow> writeText env txt = Returns () \<Longrightarrow> copyToClipboard env txt = Returns True"
  by (simp add: copyToClipboard_def)

lemma copyToClipboard_falls_back:
  "\<not> hasClipboard env \<or> writeText env txt = Throws \<Longrightarrow>
     copyToClipboard env txt = Returns (execCommand env txt \<noteq> Throws)"
  by (auto simp: copyToClipboard_def split: completion.splits)

lemma fallbackCopyText_reports:
  "fallbackCopyText env txt = Returns (execCommand env txt = Returns True)"
  by (simp add: fallbackCopyText_def split: completion.splits)

text \<open>
  Claim C7. The copy operation never throws and tries the clipboard API first, but the
  copy-button script does not report a failed fallback: when the API is missing or rejects
  and \<^verbatim>\<open>execCommand('copy')\<close> returns \<^verbatim>\<open>false\<close>, nothing was copied and
  \<^verbatim>\<open>copyToClipboard\<close> still returns \<^verbatim>\<open>true\<close>, where \<^verbatim>\<open>fallbackCopyText\<close> returns
  \<^verbatim>\<open>false\<close>.
\<close>

theorem copyToClipboard_failed_fallback_reported_as_success:
  "copyToClipboard
     \<lparr>hasClipboard = True, writeText = (\<lambda>t. Throws), execCommand = (\<lambda>t. Returns False)\<rparr>
     ''report'' = Returns True
   \<and> copyToClipboard
     \<lparr>hasClipboard = False, writeText = (\<lambda>t. Returns ()), execCommand = (\<lambda>t. Returns False)\<rparr>
     ''report'' = Returns True
   \<and> fallbackCopyText
     \<lparr>hasClipboard = True, writeText = (\<lambda>t. Throws), execCommand = (\<lambda>t. Returns False)\<rparr>
     ''report'' = Returns False"
  by (simp add: copyToClipboard_def fallbackCopyText_def)

subsection \<open>The tables of the style scanner\<close>

lemma list_all_ensure:
  "list_all (\<lambda>(k, v). P v) m \<Longrightarrow> P v0 \<Longrightarrow> list_all (\<lambda>(k, v). P v) (ensure k0 v0 m)"
  by (simp add: ensure_def)

lemma list_all_modify:
  "list_all (\<lambda>(k, v). P v) m \<Longrightarrow> (\<And>v. P v \<Longrightarrow> P (f v)) \<Longrightarrow> list_all (\<lambda>(k, v). P v) (modify k0 f m)"
  by (induction m) (auto simp: modify_def split: if_splits)

lemma length_pushCapped: "length els \<le> 3 \<Longrightarrow> length (pushCapped s els) \<le> 3"
  by (simp add: pushCapped_def)

lemma capInv_empty: "capInv emptyTables"
  by (simp add: capInv_def emptyTables_def)

lemma capInv_checkFontFamily: "capInv t \<Longrightarrow> capInv (checkFontFamily el s t)"
  by (simp add: capInv_def checkFontFamily_def Let_def)

lemma capInv_checkFontSize: "capInv t \<Longrightarrow> capInv (checkFontSize pf el s t)"
  by (auto simp: capInv_def checkFontSize_def split: option.splits
      intro!: list_all_modify list_all_ensure length_pushCapped)

lemma capInv_checkFontWeight: "capInv t \<Longrightarrow> capInv (checkFontWeight el s t)"
  by (auto simp: capInv_def checkFontWeight_def split: option.splits
      intro!: list_all_modify list_all_ensure length_pushCapped)

lemma capInv_checkTextColor: "capInv t \<Longrightarrow> capInv (checkTextColor isDark el s t)"
  by (auto simp: capInv_def checkTextColor_def split: option.splits
      intro!: list_all_modify [where P = "\<lambda>d. length (elements d) \<le> 3"]
              list_all_ensure [where P = "\<lambda>d. length (elements d) \<le> 3"] length_pushCapped)

lemma capInv_checkBackgroundColor: "capInv t \<Longrightarrow> capInv (checkBackgroundColor isDark el s t)"
  by (auto simp: capInv_def checkBackgroundColor_def Let_def split: option.splits
      intro!: list_all_modify [where P = "\<lambda>d. length (elements d) \<le> 3"]
              list_all_ensure [where P = "\<lambda>d. length (elements d) \<le> 3"] length_pushCapped)

lemma capInv_checkSpacing: "capInv t \<Longrightarrow> capInv (checkSpacing pf el s pl t)"
  by (auto simp: capInv_def checkSpacing_def Let_def split: option.splits prod.splits
      intro!: list_all_modify [where P = "\<lambda>d. length (spElements d) \<le> 3"]
              list_all_ensure [where P = "\<lambda>d. length (spElements d) \<le> 3"] length_pushCapped)

lemma capInv_fold_checkSpacing: "capInv t \<Longrightarrow> capInv (fold (checkSpacing pf el s) pls t)"
  by (induction pls arbitrary: t) (simp_all add: capInv_checkSpacing)

lemma capInv_scanElement: "capInv t \<Longrightarrow> capInv (scanElement pf isDark el t)"
  by (simp add: scanElement_def Let_def capInv_fold_checkSpacing capInv_checkBackgroundColor
      capInv_checkTextColor capInv_checkFontWeight capInv_checkFontSize capInv_checkFontFamily)

lemma capInv_fold_scanElement: "capInv t \<Longrightarrow> capInv (fold (scanElement pf isDark) els t)"
  by (induction els arbitrary: t) (simp_all add: capInv_scanElement)


lemma set_sort_key_eq: "set (sort_key f xs) = set xs"
  by simp

lemma fam_checkFontSize: "seenFontFamilies (checkFontSize pf el s t) = seenFontFamilies t"
  by (simp add: checkFontSize_def split: option.splits)

lemma fam_checkFontWeight: "seenFontFamilies (checkFontWeight el s t) = seenFontFamilies t"
  by (simp add: checkFontWeight_def split: option.splits)

lemma fam_checkTextColor: "seenFontFamilies (checkTextColor isDark el s t) = seenFontFamilies t"
  by (simp add: checkTextColor_def split: option.splits)

lemma fam_checkBackgroundColor: "seenFontFamilies (checkBackgroundColor isDark el s t) = seenFontFamilies t"
  by (simp add: checkBackgroundColor_def Let_def split: option.splits)

lemma fam_checkSpacing: "seenFontFamilies (checkSpacing pf el s pl t) = seenFontFamilies t"
  by (simp add: checkSpacing_def Let_def split: option.splits prod.splits)

lemma fam_fold_checkSpacing: "seenFontFamilies (fold (checkSpacing pf el s) pls t) = seenFontFamilies t"
  by (induction pls arbitrary: t) (simp_all add: fam_checkSpacing)

lemma fam_scanElement:
  "seenFontFamilies (scanElement pf isDark el t) =
     (if \<not> inStyleModal el \<and> \<not> (hidden el \<and> tagName el \<noteq> ''BODY'') \<and> oddFont el
      then modify (styles el ''fontFamily'') (\<lambda>els. els @ [getElementSelectorStyle el])
             (ensure (styles el ''fontFamily'') [] (seenFontFamilies t))
      else seenFontFamilies t)"
  by (auto simp: scanElement_def Let_def fam_fold_checkSpacing fam_checkBackgroundColor
      fam_checkTextColor fam_checkFontWeight fam_checkFontSize checkFontFamily_def oddFont_def)

lemma map_fst_modify: "map fst (modify k f m) = map fst m"
  by (induction m) (auto simp: modify_def)

lemma set_modify:
  "distinct (map fst m) \<Longrightarrow> (k, v) \<in> set m \<Longrightarrow>
     set (modify k f m) = insert (k, f v) (set m - {(k, v)})"
proof (induction m)
  case Nil
  then show ?case by simp
next
  case (Cons a m)
  obtain k' v' where a: "a = (k', v')" by (cases a)
  show ?case
  proof (cases "k' = k")
    case True
    with Cons.prems a have v: "v' = v" and nk: "k \<notin> fst ` set m" by force+
    then have "modify k f m = m" by (induction m) (auto simp: modify_def)
    moreover have "(k, v) \<notin> set m" using nk by force
    moreover have "modify k f (a # m) = (k, f v) # modify k f m"
      using True a v by (simp add: modify_def)
    ultimately show ?thesis using True a v by auto
  next
    case False
    with Cons.prems a have "(k, v) \<in> set m" "distinct (map fst m)" by auto
    with Cons.IH have "set (modify k f m) = insert (k, f v) (set m - {(k, v)})" by blast
    moreover have "modify k f (a # m) = a # modify k f m" using False a by (simp add: modify_def)
    ultimately show ?thesis using False a by auto
  qed
qed

text \<open>The font-family table after the elements \<open>xs\<close> have been scanned.\<close>

lemma fontFamily_table:
  defines "vis \<equiv> (\<lambda>el. \<not> inStyleModal el \<and> \<not> (hidden el \<and> tagName el \<noteq> ''BODY''))"
  shows "distinct (map fst (seenFontFamilies (fold (scanElement pf isDark) xs emptyTables)))
     \<and> fst ` set (seenFontFamilies (fold (scanElement pf isDark) xs emptyTables))
         = (\<lambda>el. styles el ''fontFamily'') ` set (filter oddFont (filter vis xs))
     \<and> (\<forall>(f, els)\<in>set (seenFontFamilies (fold (scanElement pf isDark) xs emptyTables)).
          els = map getElementSelectorStyle
                  (filter (\<lambda>el. oddFont el \<and> styles el ''fontFamily'' = f) (filter vis xs)))"
proof (induction xs rule: rev_induct)
  case Nil
  show ?case by (simp add: emptyTables_def)
next
  case (snoc x xs)
  define t where "t = fold (scanElement pf isDark) xs emptyTables"
  define m where "m = seenFontFamilies t"
  define sel where "sel = (\<lambda>f. map getElementSelectorStyle
                  (filter (\<lambda>el. oddFont el \<and> styles el ''fontFamily'' = f) (filter vis xs)))"
  from snoc have d: "distinct (map fst m)"
    and k: "fst ` set m = (\<lambda>el. styles el ''fontFamily'') ` set (filter oddFont (filter vis xs))"
    and e: "\<forall>(f, els)\<in>set m. els = sel f"
    unfolding t_def m_def sel_def by blast+
  have step: "seenFontFamilies (fold (scanElement pf isDark) (xs @ [x]) emptyTables)
      = (if vis x \<and> oddFont x
         then modify (styles x ''fontFamily'') (\<lambda>els. els @ [getElementSelectorStyle x])
                (ensure (styles x ''fontFamily'') [] m)
         else m)"
    by (simp add: fam_scanElement t_def m_def vis_def)
  show ?case
  proof (cases "vis x \<and> oddFont x")
    case False
    then have "filter oddFont (filter vis (xs @ [x])) = filter oddFont (filter vis xs)"
      "\<And>f. filter (\<lambda>el. oddFont el \<and> styles el ''fontFamily'' = f) (filter vis (xs @ [x]))
           = filter (\<lambda>el. oddFont el \<and> styles el ''fontFamily'' = f) (filter vis xs)"
      by auto
    moreover have "seenFontFamilies (fold (scanElement pf isDark) (xs @ [x]) emptyTables) = m"
      using False by (simp only: step if_False)
    ultimately show ?thesis using d k e unfolding sel_def by simp
  next
    case True
    define f0 where "f0 = styles x ''fontFamily''"
    define m1 where "m1 = ensure f0 [] m"
    define m2 where "m2 = modify f0 (\<lambda>els. els @ [getElementSelectorStyle x]) m1"
    have res: "seenFontFamilies (fold (scanElement pf isDark) (xs @ [x]) emptyTables) = m2"
      using True unfolding step m2_def m1_def f0_def by (simp only: if_True simp_thms)
    have d1: "distinct (map fst m1)" using d by (auto simp: m1_def ensure_def)
    have sel0: "sel f0 = []" if "f0 \<notin> fst ` set m"
    proof -
      have "\<forall>el\<in>set (filter oddFont (filter vis xs)). styles el ''fontFamily'' \<noteq> f0"
      proof
        fix el assume "el \<in> set (filter oddFont (filter vis xs))"
        then have "styles el ''fontFamily'' \<in> fst ` set m" unfolding k by (rule imageI)
        with that show "styles el ''fontFamily'' \<noteq> f0" by auto
      qed
      then have "filter (\<lambda>el. oddFont el \<and> styles el ''fontFamily'' = f0) (filter vis xs) = []"
        by (auto simp: filter_empty_conv)
      then show ?thesis by (simp add: sel_def)
    qed
    have in1: "(f0, sel f0) \<in> set m1"
    proof (cases "f0 \<in> fst ` set m")
      case True
      then obtain els where "(f0, els) \<in> set m" by auto
      with e have "(f0, sel f0) \<in> set m" by auto
      with True show ?thesis by (simp add: m1_def ensure_def)
    next
      case False
      with sel0 show ?thesis by (simp add: m1_def ensure_def)
    qed
    have k1: "fst ` set m1 = insert f0 (fst ` set m)" by (auto simp: m1_def ensure_def)
    have e1: "\<forall>(f, els)\<in>set m1. els = sel f"
    proof (cases "f0 \<in> fst ` set m")
      case True
      with e show ?thesis by (simp add: m1_def ensure_def)
    next
      case False
      with sel0 have "set m1 = insert (f0, sel f0) (set m)" by (auto simp: m1_def ensure_def)
      with e show ?thesis by auto
    qed
    have s2: "set m2 = insert (f0, sel f0 @ [getElementSelectorStyle x]) (set m1 - {(f0, sel f0)})"
      unfolding m2_def using d1 in1 by (rule set_modify)
    have d2: "distinct (map fst m2)" using d1 by (simp add: m2_def map_fst_modify)
    have k2: "fst ` set m2 = (\<lambda>el. styles el ''fontFamily'') ` set (filter oddFont (filter vis (xs @ [x])))"
    proof -
      have "fst ` set m2 = set (map fst m2)" by simp
      also have "\<dots> = fst ` set m1" by (simp add: m2_def map_fst_modify)
      finally show ?thesis using True k k1 by (auto simp: f0_def)
    qed
    have new: "\<And>f. map getElementSelectorStyle
                  (filter (\<lambda>el. oddFont el \<and> styles el ''fontFamily'' = f) (filter vis (xs @ [x])))
               = (if f = f0 then sel f @ [getElementSelectorStyle x] else sel f)"
      using True by (auto simp: sel_def f0_def)
    have e2: "\<forall>(f, els)\<in>set m2. els = map getElementSelectorStyle
                  (filter (\<lambda>el. oddFont el \<and> styles el ''fontFamily'' = f) (filter vis (xs @ [x])))"
    proof (intro ballI, clarify)
      fix f els assume fe: "(f, els) \<in> set m2"
      show "els = map getElementSelectorStyle
                  (filter (\<lambda>el. oddFont el \<and> styles el ''fontFamily'' = f) (filter vis (xs @ [x])))"
      proof (cases "f = f0")
        case True
        have "els = sel f0 @ [getElementSelectorStyle x]"
        proof (rule ccontr)
          assume "els \<noteq> sel f0 @ [getElementSelectorStyle x]"
          with fe True s2 have "(f0, els) \<in> set m1" "(f0, els) \<noteq> (f0, sel f0)" by auto
          with e1 show False by auto
        qed
        with True show ?thesis unfolding new by simp
      next
        case False
        with fe s2 have "(f, els) \<in> set m1" by auto
        with e1 have "els = sel f" by auto
        with False show ?thesis unfolding new by simp
      qed
    qed
    from d2 k2 e2 show ?thesis unfolding res by blast
  qed
qed

text \<open>
  Claim C9 (amended). The font-size, font-weight, colour and spacing tables of
  \<^verbatim>\<open>scanStyles\<close> store at most 3 example selectors for each value. The font-family table
  has no cap: it has one entry for each font family that is not a system font, and the
  entry lists, in document order, the selector of every scanned element with that font
  family.
\<close>

theorem scanStyles_caps:
  "(\<forall>(v, els)\<in>set (fontSize (scanStyles pf isDark doc)). length els \<le> 3)
   \<and> (\<forall>(v, els)\<in>set (fontWeight (scanStyles pf isDark doc)). length els \<le> 3)
   \<and> (\<forall>(v, d)\<in>set (color (scanStyles pf isDark doc)). length (elements d) \<le> 3)
   \<and> (\<forall>(v, d)\<in>set (spacing (scanStyles pf isDark doc)). length (spElements d) \<le> 3)
   \<and> distinct (map fst (fontFamily (scanStyles pf isDark doc)))
   \<and> fst ` set (fontFamily (scanStyles pf isDark doc))
       = (\<lambda>el. styles el ''fontFamily'') ` set (filter oddFont (scannedStyle doc))
   \<and> (\<forall>(f, els)\<in>set (fontFamily (scanStyles pf isDark doc)).
        els = map getElementSelectorStyle
                (filter (\<lambda>el. oddFont el \<and> styles el ''fontFamily'' = f) (scannedStyle doc)))"
proof -
  define els0 where "els0 =
    notTags [''script'', ''style'', ''svg'', ''path'', ''circle'', ''line'', ''rect'', ''polygon''] doc"
  define t where "t = fold (scanElement pf isDark) els0 emptyTables"
  have "capInv t" unfolding t_def by (rule capInv_fold_scanElement [OF capInv_empty])
  then have inv: "\<forall>(k, els)\<in>set (seenFontSizes t). length els \<le> 3"
      "\<forall>(k, els)\<in>set (seenFontWeights t). length els \<le> 3"
      "\<forall>(k, d)\<in>set (seenColors t). length (elements d) \<le> 3"
      "\<forall>(k, d)\<in>set (seenSpacing t). length (spElements d) \<le> 3"
    by (simp_all add: capInv_def list_all_iff)
  have r: "fontSize (scanStyles pf isDark doc) = sort_key fst (seenFontSizes t)"
      "fontWeight (scanStyles pf isDark doc) = sort_key fst (seenFontWeights t)"
      "color (scanStyles pf isDark doc) = sort_key (\<lambda>(v, d). isTheme d)
         (map (\<lambda>(c, d). (if isBg d then drop 3 c @ '' (bg)'' else c, d)) (seenColors t))"
      "spacing (scanStyles pf isDark doc) = sort_key fst (seenSpacing t)"
    by (simp_all add: scanStyles_def t_def els0_def Let_def)
  have rf: "fontFamily (scanStyles pf isDark doc) = seenFontFamilies t"
    by (simp add: scanStyles_def t_def els0_def Let_def)
  from inv(3) have c: "\<forall>(v, d)\<in>set (map (\<lambda>(c, d). (if isBg d then drop 3 c @ '' (bg)'' else c, d))
                          (seenColors t)). length (elements d) \<le> 3"
    by auto
  have caps: "(\<forall>(v, els)\<in>set (fontSize (scanStyles pf isDark doc)). length els \<le> 3)
   \<and> (\<forall>(v, els)\<in>set (fontWeight (scanStyles pf isDark doc)). length els \<le> 3)
   \<and> (\<forall>(v, d)\<in>set (color (scanStyles pf isDark doc)). length (elements d) \<le> 3)
   \<and> (\<forall>(v, d)\<in>set (spacing (scanStyles pf isDark doc)). length (spElements d) \<le> 3)"
    unfolding r set_sort_key_eq using inv c by blast
  have sc: "scannedStyle doc
      = filter (\<lambda>el. \<not> inStyleModal el \<and> \<not> (hidden el \<and> tagName el \<noteq> ''BODY'')) els0"
    by (simp add: scannedStyle_def els0_def)
  have fam: "distinct (map fst (fontFamily (scanStyles pf isDark doc)))
   \<and> fst ` set (fontFamily (scanStyles pf isDark doc))
       = (\<lambda>el. styles el ''fontFamily'') ` set (filter oddFont (scannedStyle doc))
   \<and> (\<forall>(f, els)\<in>set (fontFamily (scanStyles pf isDark doc)).
        els = map getElementSelectorStyle
                (filter (\<lambda>el. oddFont el \<and> styles el ''fontFamily'' = f) (scannedStyle doc)))"
    unfolding rf sc t_def by (rule fontFamily_table)
  from caps fam show ?thesis by (elim conjE) (intro conjI; assumption)
qed

theorem scanStyles_caps_witness:
  "fontSize (scanStyles exampleParseFloat False (replicate 4 exampleParagraph))
     = [(16, [''p.note'', ''p.note'', ''p.note''])]
   \<and> length (snd (hd (fontSize (scanStyles exampleParseFloat False (replicate 4 exampleParagraph))))) \<le> 3
   \<and> fontWeight (scanStyles exampleParseFloat False (replicate 4 exampleParagraph))
     = [(400, [''p.note'', ''p.note'', ''p.note''])]
   \<and> length (snd (hd (fontWeight (scanStyles exampleParseFloat False (replicate 4 exampleParagraph))))) \<le> 3
   \<and> map fst (color (scanStyles exampleParseFloat False (replicate 4 exampleParagraph))) = [''#0A141E'']
   \<and> map fst (spacing (scanStyles exampleParseFloat False (replicate 4 exampleParagraph))) = [5]
   \<and> fontFamily (scanStyles exampleParseFloat False (replicate 4 exampleParagraph))
     = [(''Georgia'', [''p.note'', ''p.note'', ''p.note'', ''p.note''])]
   \<and> snd (hd (fontFamily (scanStyles exampleParseFloat False (replicate 4 exampleParagraph))))
     = map getElementSelectorStyle
         (filter (\<lambda>el. oddFont el \<and> styles el ''fontFamily'' = ''Georgia'')
            (scannedStyle (replicate 4 exampleParagraph)))"
proof -
  let ?r = "scanStyles exampleParseFloat False (replicate 4 exampleParagraph)"
  have fs: "fontSize ?r = [(16, [''p.note'', ''p.note'', ''p.note''])]" by code_simp
  have fw: "fontWeight ?r = [(400, [''p.note'', ''p.note'', ''p.note''])]" by code_simp
  have co: "map fst (color ?r) = [''#0A141E'']" by code_simp
  have sp: "map fst (spacing ?r) = [5]" by code_simp
  note caps = scanStyles_caps [of exampleParseFloat False "replicate 4 exampleParagraph"]
  have m1: "hd (fontSize ?r) \<in> set (fontSize ?r)" by (simp add: fs)
  have "case hd (fontSize ?r) of (v, els) \<Rightarrow> length els \<le> 3"
    using caps [THEN conjunct1] m1 by (rule bspec)
  then have 1: "length (snd (hd (fontSize ?r))) \<le> 3" by (simp add: case_prod_beta)
  have m2: "hd (fontWeight ?r) \<in> set (fontWeight ?r)" by (simp add: fw)
  have "case hd (fontWeight ?r) of (v, els) \<Rightarrow> length els \<le> 3"
    using caps [THEN conjunct2, THEN conjunct1] m2 by (rule bspec)
  then have 2: "length (snd (hd (fontWeight ?r))) \<le> 3" by (simp add: case_prod_beta)
  have ff: "fontFamily ?r = [(''Georgia'', [''p.note'', ''p.note'', ''p.note'', ''p.note''])]"
    by code_simp
  have m3: "hd (fontFamily ?r) \<in> set (fontFamily ?r)" by (simp add: ff)
  have "case hd (fontFamily ?r) of (f, els) \<Rightarrow> els = map getElementSelectorStyle
                (filter (\<lambda>el. oddFont el \<and> styles el ''fontFamily'' = f)
                   (scannedStyle (replicate 4 exampleParagraph)))"
    using caps [THEN conjunct2, THEN conjunct2, THEN conjunct2, THEN conjunct2, THEN conjunct2,
        THEN conjunct2] m3 by (rule bspec)
  then have 3: "snd (hd (fontFamily ?r)) = map getElementSelectorStyle
         (filter (\<lambda>el. oddFont el \<and> styles el ''fontFamily'' = ''Georgia'')
            (scannedStyle (replicate 4 exampleParagraph)))"
    unfolding ff by simp
  from fs fw co sp 1 2 ff 3 show ?thesis by (intro conjI)
qed

theorem scanStyles_fontFamily_counterexample:
  "fontFamily (scanStyles exampleParseFloat False (replicate 4 exampleParagraph))
     = [(''Georgia'', [''p.note'', ''p.note'', ''p.note'', ''p.note''])]
   \<and> length (snd (hd (fontFamily (scanStyles exampleParseFloat False (replicate 4 exampleParagraph))))) = 4"
  by code_simp

subsection \<open>The conflict scan\<close>

lemma dedupe_keys:
  "distinct (map conflictKey (dedupe seen cs)) \<and> set (map conflictKey (dedupe seen cs)) \<inter> seen = {}"
proof (induction cs arbitrary: seen)
  case Nil
  show ?case by simp
next
  case (Cons c cs)
  show ?case
  proof (cases "conflictKey c \<in> seen")
    case True
    with Cons.IH [of seen] show ?thesis by simp
  next
    case False
    with Cons.IH [of "insert (conflictKey c) seen"] show ?thesis by (auto simp: Let_def)
  qed
qed

lemma conflictKey_triple:
  "conflictKey = (\<lambda>(e, t, d). e @ t @ d) \<circ> (\<lambda>c. (element c, conflictType c, detail c))"
  by (rule ext) (simp add: conflictKey_def)

text \<open>
  Claim C10. \<^verbatim>\<open>scanConflicts\<close> returns at most 100 conflicts, and no two of them have the
  same key \<^verbatim>\<open>element + type + detail\<close>; in particular no two have the same element
  selector, conflict type and detail.
\<close>

theorem scanConflicts_deduplicated_capped:
  "length (scanConflicts isDark doc) \<le> 100
   \<and> distinct (map conflictKey (scanConflicts isDark doc))
   \<and> distinct (map (\<lambda>c. (element c, conflictType c, detail c)) (scanConflicts isDark doc))"
proof -
  define cs where "cs = fold (conflictsOf isDark) (notTags [''script'', ''style'', ''svg'', ''path''] doc) []"
  have r: "scanConflicts isDark doc = take 100 (dedupe {} cs)"
    by (simp add: scanConflicts_def cs_def Let_def)
  have "distinct (map conflictKey (dedupe {} cs))" using dedupe_keys [of "{}" cs] by blast
  then have "distinct (take 100 (map conflictKey (dedupe {} cs)))" by (rule distinct_take)
  then have k: "distinct (map conflictKey (scanConflicts isDark doc))"
    by (simp add: r take_map)
  then have "distinct (map (\<lambda>(e, t, d). e @ t @ d)
                (map (\<lambda>c. (element c, conflictType c, detail c)) (scanConflicts isDark doc)))"
    by (simp add: conflictKey_triple)
  then have "distinct (map (\<lambda>c. (element c, conflictType c, detail c)) (scanConflicts isDark doc))"
    by (simp only: distinct_map [of "\<lambda>(e, t, d). e @ t @ d"])
  with k show ?thesis by (simp add: r)
qed

theorem scanConflicts_deduplicated_capped_witness:
  "map (\<lambda>c. (element c, conflictType c)) (scanConflicts False (replicate 3 exampleOverride)) =
     [(''div#hero.banner.wide'', ''inline-important''), (''div#hero.banner.wide'', ''inline-override''),
      (''div#hero.banner.wide'', ''hardcoded-color'')]
   \<and> length (scanConflicts False (replicate 3 exampleOverride)) \<le> 100
   \<and> distinct (map conflictKey (scanConflicts False (replicate 3 exampleOverride)))"
proof -
  have "map (\<lambda>c. (element c, conflictType c)) (scanConflicts False (replicate 3 exampleOverride)) =
     [(''div#hero.banner.wide'', ''inline-important''), (''div#hero.banner.wide'', ''inline-override''),
      (''div#hero.banner.wide'', ''hardcoded-color'')]"
    by code_simp
  then show ?thesis
    using scanConflicts_deduplicated_capped [of False "replicate 3 exampleOverride"] by blast
qed

subsection \<open>The component inspector: one scan\<close>

lemma visit_eq:
  "visit sT (i, el, anc) st =
     (if i \<in> seenEl st \<or> \<not> eligible el anc \<or> (clsName el \<in> seenClass st \<and> tagName el \<noteq> ''IMG'')
      then st
      else st\<lparr>seenClass := insert (clsName el) (seenClass st),
              seenEl := insert i (seenEl st),
              components := components st @ (if shown sT el anc then [(i, componentOf sT el)] else [])\<rparr>)"
  by (auto simp: visit_def eligible_def clsName_def shown_def componentOf_def Let_def
      split: option.splits)

lemma visit_blocked: "blocked st item \<Longrightarrow> visit sT item st = st"
  by (cases item) (simp add: visit_eq blocked_def)

lemma visit_unblocked:
  "\<not> blocked st (i, el, anc) \<Longrightarrow>
     visit sT (i, el, anc) st =
       st\<lparr>seenClass := insert (clsName el) (seenClass st),
          seenEl := insert i (seenEl st),
          components := components st @ (if shown sT el anc then [(i, componentOf sT el)] else [])\<rparr>"
  by (auto simp: visit_eq blocked_def)

lemma blocked_visit_self: "blocked (visit sT item st) item"
  by (cases item) (auto simp: visit_eq blocked_def)

lemma blocked_visit_mono: "blocked st item' \<Longrightarrow> blocked (visit sT item st) item'"
  by (cases item; cases item') (auto simp: visit_eq blocked_def)

lemma blocked_fold_mono: "blocked st item' \<Longrightarrow> blocked (fold (visit sT) vs st) item'"
  by (induction vs arbitrary: st) (simp_all add: blocked_visit_mono)

lemma blocked_fold_visited: "item \<in> set vs \<Longrightarrow> blocked (fold (visit sT) vs st) item"
proof (induction vs arbitrary: st)
  case Nil
  then show ?case by simp
next
  case (Cons v vs)
  show ?case
  proof (cases "item = v")
    case True
    have "blocked (visit sT v st) v" by (rule blocked_visit_self)
    then show ?thesis using True by (simp add: blocked_fold_mono)
  next
    case False
    with Cons show ?thesis by simp
  qed
qed

lemma className_componentOf: "className (componentOf sT el) = clsName el"
  by (simp add: componentOf_def mkComponent_def Let_def)

lemma elementC_componentOf: "elementC (componentOf sT el) = toLowerCase (tagName el)"
  by (simp add: componentOf_def mkComponent_def Let_def)

lemma isHidden_componentOf: "isHidden (componentOf sT el) = (hidden el \<and> tagName el \<noteq> ''BODY'')"
  by (simp add: componentOf_def mkComponent_def Let_def)

lemma toLowerCase_IMG: "toLowerCase ''IMG'' = ''img''"
  by code_simp

lemma scanInv_init: "scanInv sT items \<lparr>seenEl = {}, seenClass = {}, components = []\<rparr>"
  by (simp add: scanInv_def)

lemma scanInv_visit_triple:
  assumes inv: "scanInv sT items st" and mem: "(i, el, anc) \<in> set items"
    and dist: "distinct (map fst items)"
  shows "scanInv sT items (visit sT (i, el, anc) st)"
proof (cases "blocked st (i, el, anc)")
  case True
  with inv show ?thesis by (simp add: visit_blocked)
next
  case False
  define item where "item = (i, el, anc)"
  from False have nb: "i \<notin> seenEl st" "eligible el anc"
      "clsName el \<notin> seenClass st \<or> tagName el = ''IMG''"
    by (auto simp: blocked_def)
  define st2 where "st2 = visit sT (i, el, anc) st"
  have st': "st2 = st\<lparr>seenClass := insert (clsName el) (seenClass st),
          seenEl := insert i (seenEl st),
          components := components st @ (if shown sT el anc then [(i, componentOf sT el)] else [])\<rparr>"
    using False by (simp add: st2_def visit_unblocked)
  from inv have a: "\<forall>(j, c)\<in>set (components st).
        j \<in> seenEl st \<and> className c \<in> seenClass st
        \<and> (\<exists>el anc. (j, el, anc) \<in> set items \<and> eligible el anc \<and> shown sT el anc
              \<and> c = componentOf sT el)"
    and b: "distinct (map fst (components st))"
    and c: "distinct (map (\<lambda>(i, c). className c) (filter (\<lambda>(i, c). elementC c \<noteq> ''img'') (components st)))"
    and d: "\<forall>(j, el, anc)\<in>set items. tagName el = ''IMG'' \<and> j \<in> seenEl st \<longrightarrow> j \<in> fst ` set (components st)"
    by (simp_all add: scanInv_def)
  have inew: "i \<notin> fst ` set (components st)" using a nb(1) by fastforce
  have uniq: "\<And>el' anc'. (i, el', anc') \<in> set items \<Longrightarrow> el' = el \<and> anc' = anc"
  proof -
    fix el' anc' assume "(i, el', anc') \<in> set items"
    with mem dist have "(el', anc') = (el, anc)"
      by (metis eq_key_imp_eq_value)
    then show "el' = el \<and> anc' = anc" by simp
  qed
  have a': "\<forall>(j, c)\<in>set (components st2).
        j \<in> seenEl st2 \<and> className c \<in> seenClass st2
        \<and> (\<exists>el anc. (j, el, anc) \<in> set items \<and> eligible el anc \<and> shown sT el anc
              \<and> c = componentOf sT el)"
    using a mem nb(2) by (auto simp: st' className_componentOf)
  have b': "distinct (map fst (components st2))"
    using b inew by (simp add: st')
  have c': "distinct (map (\<lambda>(i, c). className c) (filter (\<lambda>(i, c). elementC c \<noteq> ''img'') (components st2)))"
  proof (cases "shown sT el anc \<and> elementC (componentOf sT el) \<noteq> ''img''")
    case False
    then show ?thesis using c by (auto simp: st')
  next
    case True
    then have "tagName el \<noteq> ''IMG''"
      using toLowerCase_IMG by (auto simp: elementC_componentOf)
    with nb(3) have "clsName el \<notin> seenClass st" by simp
    then have "clsName el \<notin> (\<lambda>(i, c). className c) ` set (components st)"
      using a by fastforce
    then have "clsName el \<notin> (\<lambda>(i, c). className c) ` set (filter (\<lambda>(i, c). elementC c \<noteq> ''img'') (components st))"
      by auto
    with True c show ?thesis by (simp add: st' className_componentOf)
  qed
  have d': "\<forall>(j, el, anc)\<in>set items. tagName el = ''IMG'' \<and> j \<in> seenEl st2 \<longrightarrow> j \<in> fst ` set (components st2)"
  proof (intro ballI, clarify)
    fix j el' anc'
    assume m: "(j, el', anc') \<in> set items" and img: "tagName el' = ''IMG''" and s: "j \<in> seenEl st2"
    show "j \<in> fst ` set (components st2)"
    proof (cases "j = i")
      case True
      with m uniq have "el' = el" "anc' = anc" by auto
      with img have "shown sT el anc" by (simp add: shown_def)
      then show ?thesis using True by (simp add: st')
    next
      case False
      with s have "j \<in> seenEl st" by (simp add: st')
      with d m img have "j \<in> fst ` set (components st)" by blast
      then show ?thesis by (auto simp: st')
    qed
  qed
  from a' b' c' d' show ?thesis unfolding scanInv_def st2_def by blast
qed

lemma scanInv_visit:
  "scanInv sT items st \<Longrightarrow> item \<in> set items \<Longrightarrow> distinct (map fst items)
     \<Longrightarrow> scanInv sT items (visit sT item st)"
  by (cases item) (simp add: scanInv_visit_triple)

lemma scanInv_fold:
  "scanInv sT items st \<Longrightarrow> set vs \<subseteq> set items \<Longrightarrow> distinct (map fst items)
     \<Longrightarrow> scanInv sT items (fold (visit sT) vs st)"
  by (induction vs arbitrary: st) (simp_all add: scanInv_visit)

lemma scanInv_scanSelector:
  "scanInv sT items st \<Longrightarrow> distinct (map fst items) \<Longrightarrow> scanInv sT items (scanSelector sT items sel st)"
  unfolding scanSelector_def by (rule scanInv_fold) auto

lemma scanInv_selectors:
  "scanInv sT items st \<Longrightarrow> distinct (map fst items)
     \<Longrightarrow> scanInv sT items (fold (scanSelector sT items) sels st)"
  by (induction sels arbitrary: st) (simp_all add: scanInv_scanSelector)

lemma scanInv_scanLoop: "distinct (map fst items) \<Longrightarrow> scanInv sT items (scanLoop sT items)"
  unfolding scanLoop_def by (rule scanInv_selectors [OF scanInv_init])

lemma distinct_sectionItems: "distinct (map fst (sectionItems outer section))"
  by (simp add: sectionItems_def)

lemma blocked_scanSelector:
  "(i, el, anc) \<in> set items \<Longrightarrow> matches sel el \<Longrightarrow> blocked (scanSelector sT items sel st) (i, el, anc)"
  unfolding scanSelector_def by (rule blocked_fold_visited) simp

lemma blocked_scanSelector_mono:
  "blocked st item \<Longrightarrow> blocked (scanSelector sT items sel st) item"
  unfolding scanSelector_def by (rule blocked_fold_mono)

lemma blocked_selectors_mono:
  "blocked st item \<Longrightarrow> blocked (fold (scanSelector sT items) sels st) item"
  by (induction sels arbitrary: st) (simp_all add: blocked_scanSelector_mono)

lemma blocked_selectors:
  "sel \<in> set sels \<Longrightarrow> (i, el, anc) \<in> set items \<Longrightarrow> matches sel el
     \<Longrightarrow> blocked (fold (scanSelector sT items) sels st) (i, el, anc)"
proof (induction sels arbitrary: st)
  case Nil
  then show ?case by simp
next
  case (Cons s sels)
  show ?case
  proof (cases "sel = s")
    case True
    with Cons.prems have "blocked (scanSelector sT items s st) (i, el, anc)"
      by (simp add: blocked_scanSelector)
    then show ?thesis by (simp add: blocked_selectors_mono)
  next
    case False
    with Cons show ?thesis by simp
  qed
qed

lemma img_eligible:
  "tagName el = ''IMG'' \<Longrightarrow> \<not> closest (Id DEBUG_MODAL_ID) el anc \<Longrightarrow> eligible el anc"
  by (simp add: eligible_def isMediaElement_def classNameOf_def split: option.splits)

lemma img_matches: "tagName el = ''IMG'' \<Longrightarrow> matches (Tag ''img'') el"
  by (simp add: toLowerCase_IMG)

lemma img_selector: "Tag ''img'' \<in> set selectors"
  by (simp add: selectors_def)

lemma img_reported:
  assumes mem: "(i, el, anc) \<in> set items" and dist: "distinct (map fst items)"
    and img: "tagName el = ''IMG''" and nomodal: "\<not> closest (Id DEBUG_MODAL_ID) el anc"
  shows "(i, componentOf sT el) \<in> set (components (scanLoop sT items))"
proof -
  let ?st = "scanLoop sT items"
  have "blocked ?st (i, el, anc)"
    unfolding scanLoop_def using img_selector mem img_matches [OF img] by (rule blocked_selectors)
  with img img_eligible [OF img nomodal] have seen: "i \<in> seenEl ?st" by (simp add: blocked_def)
  have inv: "scanInv sT items ?st" using dist by (rule scanInv_scanLoop)
  with mem img seen have "i \<in> fst ` set (components ?st)" unfolding scanInv_def by blast
  then obtain c where c: "(i, c) \<in> set (components ?st)" by auto
  with inv obtain el' anc' where "(i, el', anc') \<in> set items" "c = componentOf sT el'"
    unfolding scanInv_def by blast
  moreover from this mem dist have "(el', anc') = (el, anc)" by (metis eq_key_imp_eq_value)
  ultimately show ?thesis using c by simp
qed



lemma reported_eligible:
  assumes dist: "distinct (map fst items)" and mem: "(i, el, anc) \<in> set items"
    and rep: "i \<in> fst ` set (components (scanLoop sT items))"
  shows "eligible el anc \<and> shown sT el anc \<and> (i, componentOf sT el) \<in> set (components (scanLoop sT items))"
proof -
  from rep obtain c where c: "(i, c) \<in> set (components (scanLoop sT items))" by auto
  with scanInv_scanLoop [OF dist, of sT] obtain el' anc' where
    e: "(i, el', anc') \<in> set items" "eligible el' anc'" "shown sT el' anc'" "c = componentOf sT el'"
    unfolding scanInv_def by blast
  from e(1) mem dist have "(el', anc') = (el, anc)" by (metis eq_key_imp_eq_value)
  with e c show ?thesis by simp
qed

subsection \<open>The component inspector: hidden elements\<close>

lemma matches_unhide: "matches sel (el\<lparr>hidden := False\<rparr>) = matches sel el"
  by (cases sel) (simp_all add: classList_def)

lemma closest_unhide: "closest sel (el\<lparr>hidden := False\<rparr>) anc = closest sel el anc"
  by (simp add: closest_def matches_unhide)

lemma isMedia_unhide: "isMediaElement (el\<lparr>hidden := False\<rparr>) anc = isMediaElement el anc"
  by (simp add: isMediaElement_def closest_unhide classList_def)

lemma classNameOf_unhide: "classNameOf (el\<lparr>hidden := False\<rparr>) = classNameOf el"
  by (simp add: classNameOf_def getPrimaryClass_def)

lemma clsName_unhide: "clsName (el\<lparr>hidden := False\<rparr>) = clsName el"
  by (simp add: clsName_def classNameOf_unhide)

lemma eligible_unhide:
  "isMediaElement el anc \<Longrightarrow> eligible (el\<lparr>hidden := False\<rparr>) anc = eligible el anc"
  by (simp add: eligible_def closest_unhide isMedia_unhide classNameOf_unhide)

lemma shown_unhide: "shown sT (el\<lparr>hidden := False\<rparr>) anc = shown sT el anc"
  by (simp add: shown_def isMedia_unhide componentOf_def mkComponent_def Let_def)

lemma sameReport_visit_triple:
  assumes "sameReport st st'"
  shows "sameReport (visit sT (i, el, anc) st) (visit sT (unhideMedia (i, el, anc)) st')"
proof (cases "isMediaElement el anc")
  case True
  then have u: "unhideMedia (i, el, anc) = (i, el\<lparr>hidden := False\<rparr>, anc)"
    by (simp add: unhideMedia_def)
  show ?thesis
    unfolding u visit_eq using assms True
    by (simp add: sameReport_def eligible_unhide clsName_unhide shown_unhide)
next
  case False
  then have u: "unhideMedia (i, el, anc) = (i, el, anc)" by (simp add: unhideMedia_def)
  show ?thesis unfolding u visit_eq using assms by (simp add: sameReport_def)
qed

lemma sameReport_visit:
  "sameReport st st' \<Longrightarrow> sameReport (visit sT item st) (visit sT (unhideMedia item) st')"
  by (cases item) (simp only: sameReport_visit_triple)

lemma sameReport_fold:
  "sameReport st st' \<Longrightarrow> sameReport (fold (visit sT) vs st) (fold (visit sT) (map unhideMedia vs) st')"
  by (induction vs arbitrary: st st') (simp_all add: sameReport_visit)

lemma matches_unhideMedia:
  "(case unhideMedia item of (i, el, anc) \<Rightarrow> matches sel el)
     = (case item of (i, el, anc) \<Rightarrow> matches sel el)"
  by (cases item) (simp add: unhideMedia_def matches_unhide)

lemma filter_unhideMedia:
  "filter (\<lambda>(i, el, anc). matches sel el) (map unhideMedia items)
     = map unhideMedia (filter (\<lambda>(i, el, anc). matches sel el) items)"
  by (induction items) (simp_all add: matches_unhideMedia)

lemma sameReport_scanSelector:
  "sameReport st st' \<Longrightarrow>
     sameReport (scanSelector sT items sel st) (scanSelector sT (map unhideMedia items) sel st')"
  unfolding scanSelector_def filter_unhideMedia by (rule sameReport_fold)

lemma sameReport_selectors:
  "sameReport st st' \<Longrightarrow>
     sameReport (fold (scanSelector sT items) sels st)
                (fold (scanSelector sT (map unhideMedia items)) sels st')"
  by (induction sels arbitrary: st st') (simp_all add: sameReport_scanSelector)

lemma sameReport_scanLoop: "sameReport (scanLoop sT items) (scanLoop sT (map unhideMedia items))"
  unfolding scanLoop_def by (rule sameReport_selectors) (simp add: sameReport_def)

lemma hidden_not_reported:
  assumes mem: "(i, el, anc) \<in> set (sectionItems outer section)"
    and h: "hidden el" "tagName el \<noteq> ''BODY''" "\<not> isMediaElement el anc"
  shows "i \<notin> fst ` set (components (scanLoop sT (sectionItems outer section)))"
proof
  assume "i \<in> fst ` set (components (scanLoop sT (sectionItems outer section)))"
  with reported_eligible [OF distinct_sectionItems mem] have "eligible el anc" by blast
  with h show False by (simp add: eligible_def)
qed

lemma hidden_img_reported:
  assumes mem: "(i, el, anc) \<in> set (sectionItems outer section)"
    and h: "hidden el" and img: "tagName el = ''IMG''"
    and nm: "\<not> closest (Id DEBUG_MODAL_ID) el anc"
  shows "(i, componentOf sT el) \<in> set (components (scanLoop sT (sectionItems outer section)))
        \<and> isHidden (componentOf sT el)"
proof -
  have "(i, componentOf sT el) \<in> set (components (scanLoop sT (sectionItems outer section)))"
    using mem distinct_sectionItems img nm by (rule img_reported)
  moreover have "isHidden (componentOf sT el)" using h img by (simp add: isHidden_componentOf)
  ultimately show ?thesis by simp
qed

subsection \<open>The component inspector: the order of the report\<close>

lemma firstSelector_eq:
  assumes "selectors = done @ sel # rest" and "\<forall>s\<in>set done. \<not> matches s el" and "matches sel el"
  shows "firstSelector el = length done"
proof -
  have "takeWhile (\<lambda>s. \<not> matches s el) (done @ sel # rest) = done"
    using assms(2,3) by (simp add: takeWhile_append2)
  then show ?thesis by (simp add: firstSelector_def assms(1))
qed

lemma enumerate_mem: "(i, el, anc) \<in> set (enumerate 0 ds) \<Longrightarrow> i < length ds \<and> fst (ds ! i) = el"
  by (auto simp: in_set_enumerate_eq)

lemma enumerate_sorted: "sorted_wrt (\<lambda>a b. fst a < fst b) (enumerate 0 ds)"
proof -
  have "sorted_wrt (<) (map fst (enumerate 0 ds))" by simp
  then show ?thesis by (simp only: sorted_wrt_map)
qed

lemma inner_loop:
  assumes sels: "selectors = done @ sel # rest"
    and sub: "set vs \<subseteq> set (enumerate 0 ds)"
    and m: "\<forall>(i, el, anc)\<in>set vs. matches sel el"
    and srt: "sorted_wrt (\<lambda>a b. fst a < fst b) vs"
    and A1: "\<forall>(i, el, anc)\<in>set (enumerate 0 ds). (\<exists>s\<in>set done. matches s el) \<longrightarrow> blocked st (i, el, anc)"
    and A2: "\<forall>i\<in>set (map fst (components st)). i < length ds
               \<and> (firstSelector (fst (ds ! i)) < length done
                  \<or> (firstSelector (fst (ds ! i)) = length done \<and> (\<forall>j\<in>set (map fst vs). i < j)))"
    and A3: "sorted_wrt (precedes ds) (map fst (components st))"
  shows "(\<forall>(i, el, anc)\<in>set (enumerate 0 ds). (\<exists>s\<in>set done. matches s el) \<longrightarrow>
            blocked (fold (visit sT) vs st) (i, el, anc))
       \<and> (\<forall>i\<in>set (map fst (components (fold (visit sT) vs st))). i < length ds
               \<and> firstSelector (fst (ds ! i)) \<le> length done)
       \<and> sorted_wrt (precedes ds) (map fst (components (fold (visit sT) vs st)))"
  using sub m srt A1 A2 A3
proof (induction vs arbitrary: st)
  case Nil
  have "\<forall>i\<in>set (map fst (components st)). i < length ds
               \<and> firstSelector (fst (ds ! i)) \<le> length done"
  proof
    fix i assume "i \<in> set (map fst (components st))"
    with Nil.prems(5) have "i < length ds"
      and "firstSelector (fst (ds ! i)) < length done \<or> firstSelector (fst (ds ! i)) = length done"
      by blast+
    then show "i < length ds \<and> firstSelector (fst (ds ! i)) \<le> length done" by linarith
  qed
  with Nil.prems(4,6) show ?case by simp
next
  case (Cons v vs)
  obtain i el anc where v: "v = (i, el, anc)" by (cases v)
  from Cons.prems(1) v have mem: "(i, el, anc) \<in> set (enumerate 0 ds)" by simp
  from enumerate_mem [OF mem] have il: "i < length ds" and eli: "fst (ds ! i) = el" by simp_all
  from Cons.prems(2) v have msel: "matches sel el" by simp
  from Cons.prems(3) v have later: "\<forall>j\<in>set (map fst vs). i < j" by auto
  have sub': "set vs \<subseteq> set (enumerate 0 ds)" using Cons.prems(1) by simp
  have m': "\<forall>(i, el, anc)\<in>set vs. matches sel el" using Cons.prems(2) by simp
  have srt': "sorted_wrt (\<lambda>a b. fst a < fst b) vs" using Cons.prems(3) by simp
  show ?case
  proof (cases "blocked st v")
    case True
    then have same: "visit sT v st = st" by (rule visit_blocked)
    have A2': "\<forall>i\<in>set (map fst (components st)). i < length ds
               \<and> (firstSelector (fst (ds ! i)) < length done
                  \<or> (firstSelector (fst (ds ! i)) = length done \<and> (\<forall>j\<in>set (map fst vs). i < j)))"
      using Cons.prems(5) by auto
    from Cons.IH [OF sub' m' srt' Cons.prems(4) A2' Cons.prems(6)]
    show ?thesis by (simp add: same)
  next
    case False
    define st2 where "st2 = visit sT v st"
    have st2: "st2 = st\<lparr>seenClass := insert (clsName el) (seenClass st),
          seenEl := insert i (seenEl st),
          components := components st @ (if shown sT el anc then [(i, componentOf sT el)] else [])\<rparr>"
      using False unfolding st2_def v by (rule visit_unblocked)
    from False Cons.prems(4) mem v have nodone: "\<forall>s\<in>set done. \<not> matches s el" by blast
    have fs: "firstSelector (fst (ds ! i)) = length done"
      unfolding eli using sels nodone msel by (rule firstSelector_eq)
    have B1: "\<forall>(i, el, anc)\<in>set (enumerate 0 ds). (\<exists>s\<in>set done. matches s el) \<longrightarrow> blocked st2 (i, el, anc)"
      using Cons.prems(4) unfolding st2_def by (auto intro: blocked_visit_mono)
    have old: "\<forall>j\<in>set (map fst (components st)). j < length ds
               \<and> (firstSelector (fst (ds ! j)) < length done
                  \<or> (firstSelector (fst (ds ! j)) = length done \<and> j < i \<and> (\<forall>k\<in>set (map fst vs). j < k)))"
      using Cons.prems(5) v by simp
    have B2: "\<forall>j\<in>set (map fst (components st2)). j < length ds
               \<and> (firstSelector (fst (ds ! j)) < length done
                  \<or> (firstSelector (fst (ds ! j)) = length done \<and> (\<forall>k\<in>set (map fst vs). j < k)))"
      using old il fs later by (auto simp: st2)
    have "\<forall>j\<in>set (map fst (components st)). precedes ds j i"
      using old fs by (auto simp: precedes_def)
    then have B3: "sorted_wrt (precedes ds) (map fst (components st2))"
      using Cons.prems(6) by (simp add: st2 sorted_wrt_append)
    from Cons.IH [OF sub' m' srt' B1 B2 B3]
    show ?thesis by (simp add: st2_def)
  qed
qed


lemma outer_loop:
  assumes "selectors = done @ rest"
    and "\<forall>(i, el, anc)\<in>set (enumerate 0 ds). (\<exists>s\<in>set done. matches s el) \<longrightarrow> blocked st (i, el, anc)"
    and "\<forall>i\<in>set (map fst (components st)). i < length ds \<and> firstSelector (fst (ds ! i)) < length done"
    and "sorted_wrt (precedes ds) (map fst (components st))"
  shows "(\<forall>i\<in>set (map fst (components (fold (scanSelector sT (enumerate 0 ds)) rest st))). i < length ds)
       \<and> sorted_wrt (precedes ds) (map fst (components (fold (scanSelector sT (enumerate 0 ds)) rest st)))"
  using assms
proof (induction rest arbitrary: "done" st)
  case Nil
  then show ?case by simp
next
  case (Cons sel rest)
  let ?vs = "filter (\<lambda>(i, el, anc). matches sel el) (enumerate 0 ds)"
  define st2 where "st2 = scanSelector sT (enumerate 0 ds) sel st"
  have st2: "st2 = fold (visit sT) ?vs st" by (simp add: st2_def scanSelector_def)
  have sub: "set ?vs \<subseteq> set (enumerate 0 ds)" by auto
  have m: "\<forall>(i, el, anc)\<in>set ?vs. matches sel el" by auto
  have srt: "sorted_wrt (\<lambda>a b. fst a < fst b) ?vs"
    using enumerate_sorted by (rule sorted_wrt_filter)
  have A2: "\<forall>i\<in>set (map fst (components st)). i < length ds
               \<and> (firstSelector (fst (ds ! i)) < length done
                  \<or> (firstSelector (fst (ds ! i)) = length done \<and> (\<forall>j\<in>set (map fst ?vs). i < j)))"
    using Cons.prems(3) by blast
  from inner_loop [OF Cons.prems(1) sub m srt Cons.prems(2) A2 Cons.prems(4), of sT]
  have B1: "\<forall>(i, el, anc)\<in>set (enumerate 0 ds). (\<exists>s\<in>set done. matches s el) \<longrightarrow>
            blocked st2 (i, el, anc)"
    and B2: "\<forall>i\<in>set (map fst (components st2)). i < length ds
               \<and> firstSelector (fst (ds ! i)) \<le> length done"
    and B3: "sorted_wrt (precedes ds) (map fst (components st2))"
    unfolding st2 by blast+
  have C0: "selectors = (done @ [sel]) @ rest" using Cons.prems(1) by simp
  have C1: "\<forall>(i, el, anc)\<in>set (enumerate 0 ds). (\<exists>s\<in>set (done @ [sel]). matches s el) \<longrightarrow>
            blocked st2 (i, el, anc)"
  proof (intro ballI, clarify)
    fix i el anc s
    assume mem: "(i, el, anc) \<in> set (enumerate 0 ds)" and s: "s \<in> set (done @ [sel])" "matches s el"
    show "blocked st2 (i, el, anc)"
    proof (cases "s = sel")
      case True
      with s(2) mem show ?thesis unfolding st2_def by (simp add: blocked_scanSelector)
    next
      case False
      with s have "\<exists>s\<in>set done. matches s el" by auto
      with B1 mem show ?thesis by blast
    qed
  qed
  have C2: "\<forall>i\<in>set (map fst (components st2)). i < length ds
               \<and> firstSelector (fst (ds ! i)) < length (done @ [sel])"
    using B2 by fastforce
  from Cons.IH [OF C0 C1 C2 B3] show ?case by (simp add: st2_def)
qed

lemma scanLoop_order:
  "(\<forall>i\<in>set (map fst (components (scanLoop sT (enumerate 0 ds)))). i < length ds)
   \<and> sorted_wrt (precedes ds) (map fst (components (scanLoop sT (enumerate 0 ds))))"
  unfolding scanLoop_def
  by (rule outer_loop [of "[]"]) simp_all

lemma components_are_componentOf:
  assumes "(i, c) \<in> set (components (scanLoop sT (enumerate 0 ds)))"
  shows "c = componentOf sT (fst (ds ! i))"
proof -
  have "distinct (map fst (enumerate 0 ds))" by simp
  from scanInv_scanLoop [OF this, of sT] assms
  obtain el anc where "(i, el, anc) \<in> set (enumerate 0 ds)" "c = componentOf sT el"
    unfolding scanInv_def by blast
  with enumerate_mem [of i el anc ds] show ?thesis by simp
qed

lemma components_map:
  "map (\<lambda>(i, c). ComponentFact c) (components (scanLoop sT (enumerate 0 ds)))
     = map (\<lambda>i. ComponentFact (componentOf sT (fst (ds ! i))))
         (map fst (components (scanLoop sT (enumerate 0 ds))))"
  using components_are_componentOf [of _ _ sT ds] by (auto simp: map_eq_conv)

text \<open>
  Claim C3 (amended). The report of a section starts with the entry of the section itself.
  The entries that follow are those of a list of its descendants, ordered by the first
  selector of the inspector's list that each element matches and, among the elements with
  the same first selector, by their order in the document.
\<close>

theorem scanSectionComponents_order:
  "\<exists>s ps. scanSectionComponents sT outer section
            = SectionFact s # map (\<lambda>i. ComponentFact (componentOf sT (fst (descendants outer section ! i)))) ps
        \<and> sElement s = ''Section Container'' \<and> isSection s
        \<and> set ps \<subseteq> {..<length (descendants outer section)}
        \<and> sorted_wrt (precedes (descendants outer section)) ps"
proof -
  let ?ds = "descendants outer section"
  let ?ps = "map fst (components (scanLoop sT (enumerate 0 ?ds)))"
  have "set ?ps \<subseteq> {..<length ?ds}" and "sorted_wrt (precedes ?ds) ?ps"
    using scanLoop_order [of sT ?ds] by auto
  then show ?thesis
    unfolding scanSectionComponents_def sectionItems_def components_map
    by (intro exI [of _ ?ps] exI conjI) (rule refl, simp_all)
qed

theorem scanSectionComponents_order_counterexample:
  "map (\<lambda>(el, anc). toLowerCase (tagName el)) (take 2 (descendants [] exampleSection)) = [''p'', ''h2'']
   \<and> map factElement (take 3 (scanSectionComponents None [] exampleSection))
       = [''Section Container'', ''h2'', ''p'']"
  by code_simp

subsection \<open>The component inspector: which elements are reported\<close>

lemma firstSelector_matches:
  "firstSelector el < length selectors \<Longrightarrow> matches (selectors ! firstSelector el) el"
  unfolding firstSelector_def
  using nth_length_takeWhile [of "\<lambda>sel. \<not> matches sel el" selectors] by simp

lemma firstSelector_least: "k < firstSelector el \<Longrightarrow> \<not> matches (selectors ! k) el"
proof -
  assume k: "k < firstSelector el"
  let ?P = "\<lambda>sel. \<not> matches sel el"
  from k have "takeWhile ?P selectors ! k \<in> set (takeWhile ?P selectors)"
    unfolding firstSelector_def by (rule nth_mem)
  then have "?P (takeWhile ?P selectors ! k)" by (auto dest: set_takeWhileD)
  moreover have "takeWhile ?P selectors ! k = selectors ! k"
    using k unfolding firstSelector_def by (rule takeWhile_nth)
  ultimately show ?thesis by simp
qed

lemma firstSelector_le: "matches (selectors ! k) el \<Longrightarrow> firstSelector el \<le> k"
  using firstSelector_least [of k el] by (cases "k < firstSelector el") simp_all

lemma firstSelector_length: "firstSelector el \<le> length selectors"
  unfolding firstSelector_def by (rule length_takeWhile_le)

lemma list_ex_firstSelector:
  "list_ex (\<lambda>sel. matches sel el) selectors \<longleftrightarrow> firstSelector el < length selectors"
proof
  assume "list_ex (\<lambda>sel. matches sel el) selectors"
  then obtain k where "k < length selectors" "matches (selectors ! k) el"
    by (auto simp: list_ex_iff in_set_conv_nth)
  with firstSelector_le [of k el] show "firstSelector el < length selectors" by simp
next
  assume a: "firstSelector el < length selectors"
  with firstSelector_matches [OF a] show "list_ex (\<lambda>sel. matches sel el) selectors"
    unfolding list_ex_iff using nth_mem by blast
qed

text \<open>Elements that are blocked can be left out of a run of the loop body.\<close>

lemma fold_filter_skip:
  assumes "\<forall>x\<in>set xs. P x \<and> \<not> Q x \<longrightarrow> blocked st x" and "\<forall>x\<in>set xs. Q x \<longrightarrow> P x"
  shows "fold (visit sT) (filter P xs) st = fold (visit sT) (filter Q xs) st"
  using assms
proof (induction xs arbitrary: st)
  case Nil
  show ?case by simp
next
  case (Cons x xs)
  have rest: "\<forall>y\<in>set xs. Q y \<longrightarrow> P y" using Cons.prems(2) by simp
  show ?case
  proof (cases "Q x")
    case True
    with Cons.prems(2) have p: "P x" by simp
    have "\<forall>y\<in>set xs. P y \<and> \<not> Q y \<longrightarrow> blocked (visit sT x st) y"
      using Cons.prems(1) by (simp add: blocked_visit_mono)
    from Cons.IH [OF this rest] show ?thesis using True p by simp
  next
    case False
    have b: "\<forall>y\<in>set xs. P y \<and> \<not> Q y \<longrightarrow> blocked st y" using Cons.prems(1) by simp
    show ?thesis
    proof (cases "P x")
      case True
      with False Cons.prems(1) have "blocked st x" by simp
      then have "visit sT x st = st" by (rule visit_blocked)
      with Cons.IH [OF b rest] show ?thesis using True False by simp
    next
      case np: False
      with Cons.IH [OF b rest] show ?thesis using False by simp
    qed
  qed
qed

lemma scanSequence_Suc:
  "scanSequence items (Suc n)
     = scanSequence items n @ filter (\<lambda>(i, el, anc). firstSelector el = n) items"
  by (simp add: scanSequence_def)

text \<open>
  The loop over the selectors comes to the same as one run of the loop body over the
  elements in the order of their first visit.
\<close>

lemma scan_prefix:
  "n \<le> length selectors \<Longrightarrow>
     fold (scanSelector sT items) (take n selectors) st0 = fold (visit sT) (scanSequence items n) st0"
proof (induction n)
  case 0
  show ?case by (simp add: scanSequence_def)
next
  case (Suc n)
  then have n: "n < length selectors" by simp
  define st where "st = fold (scanSelector sT items) (take n selectors) st0"
  have st: "st = fold (visit sT) (scanSequence items n) st0"
    unfolding st_def using Suc by simp
  have skip: "\<forall>x\<in>set items. (case x of (i, el, anc) \<Rightarrow> matches (selectors ! n) el)
        \<and> \<not> (case x of (i, el, anc) \<Rightarrow> firstSelector el = n) \<longrightarrow> blocked st x"
  proof (intro ballI impI)
    fix x assume x: "x \<in> set items"
      and h: "(case x of (i, el, anc) \<Rightarrow> matches (selectors ! n) el)
        \<and> \<not> (case x of (i, el, anc) \<Rightarrow> firstSelector el = n)"
    obtain i el anc where xe: "x = (i, el, anc)" by (cases x)
    from h xe have m: "matches (selectors ! n) el" and ne: "firstSelector el \<noteq> n" by simp_all
    from firstSelector_le [OF m] ne have lt: "firstSelector el < n" by simp
    with n have "firstSelector el < length selectors" by simp
    then have m': "matches (selectors ! firstSelector el) el" by (rule firstSelector_matches)
    have "selectors ! firstSelector el = take n selectors ! firstSelector el" using lt by simp
    moreover have "take n selectors ! firstSelector el \<in> set (take n selectors)"
      using lt n by (intro nth_mem) simp
    ultimately have "selectors ! firstSelector el \<in> set (take n selectors)" by simp
    then have "blocked (fold (scanSelector sT items) (take n selectors) st0) (i, el, anc)"
      using x m' unfolding xe by (rule blocked_selectors)
    then show "blocked st x" by (simp add: st_def xe)
  qed
  have keep: "\<forall>x\<in>set items. (case x of (i, el, anc) \<Rightarrow> firstSelector el = n)
        \<longrightarrow> (case x of (i, el, anc) \<Rightarrow> matches (selectors ! n) el)"
    using firstSelector_matches n by auto
  have "fold (scanSelector sT items) (take (Suc n) selectors) st0
      = scanSelector sT items (selectors ! n) st"
    using n by (simp add: take_Suc_conv_app_nth st_def)
  also have "\<dots> = fold (visit sT) (filter (\<lambda>(i, el, anc). matches (selectors ! n) el) items) st"
    by (simp add: scanSelector_def)
  also have "\<dots> = fold (visit sT) (filter (\<lambda>(i, el, anc). firstSelector el = n) items) st"
    using skip keep by (rule fold_filter_skip)
  also have "\<dots> = fold (visit sT) (scanSequence items (Suc n)) st0"
    by (simp add: st scanSequence_Suc)
  finally show ?case .
qed

lemma scanLoop_scanSequence:
  "scanLoop sT items
     = fold (visit sT) (scanSequence items (length selectors))
         \<lparr>seenEl = {}, seenClass = {}, components = []\<rparr>"
  using scan_prefix [of "length selectors" sT items] by (simp add: scanLoop_def)

lemma set_scanSequence:
  "set (scanSequence items n) = {x \<in> set items. case x of (i, el, anc) \<Rightarrow> firstSelector el < n}"
  by (induction n) (auto simp: scanSequence_Suc scanSequence_def less_Suc_eq)

lemma precedes_asym: "precedes ds i j \<Longrightarrow> \<not> precedes ds j i"
  by (auto simp: precedes_def)

lemma sorted_scanSequence:
  "sorted_wrt (\<lambda>a b. precedes ds (fst a) (fst b)) (scanSequence (enumerate 0 ds) n)"
proof (induction n)
  case 0
  show ?case by (simp add: scanSequence_def)
next
  case (Suc n)
  let ?new = "filter (\<lambda>(i, el, anc). firstSelector el = n) (enumerate 0 ds)"
  have first: "firstSelector (fst (ds ! fst x)) = n" if "x \<in> set ?new" for x
  proof -
    obtain i el anc where x: "x = (i, el, anc)" by (cases x)
    with that have "(i, el, anc) \<in> set (enumerate 0 ds)" "firstSelector el = n" by simp_all
    with enumerate_mem [of i el anc ds] show ?thesis by (simp add: x)
  qed
  have old: "firstSelector (fst (ds ! fst x)) < n" if "x \<in> set (scanSequence (enumerate 0 ds) n)" for x
  proof -
    obtain i el anc where x: "x = (i, el, anc)" by (cases x)
    with that have "(i, el, anc) \<in> set (enumerate 0 ds)" "firstSelector el < n"
      by (simp_all add: set_scanSequence)
    with enumerate_mem [of i el anc ds] show ?thesis by (simp add: x)
  qed
  have "sorted_wrt (\<lambda>a b. fst a < fst b) ?new"
    using enumerate_sorted by (rule sorted_wrt_filter)
  then have s: "sorted_wrt (\<lambda>a b. precedes ds (fst a) (fst b)) ?new"
  proof (rule sorted_wrt_mono_rel [rotated])
    fix a b assume "a \<in> set ?new" "b \<in> set ?new" "fst a < fst b"
    with first [of a] first [of b] show "precedes ds (fst a) (fst b)" by (simp add: precedes_def)
  qed
  have cross: "\<forall>a\<in>set (scanSequence (enumerate 0 ds) n). \<forall>b\<in>set ?new. precedes ds (fst a) (fst b)"
    using old first by (simp add: precedes_def)
  from Suc s cross show ?case by (simp add: scanSequence_Suc sorted_wrt_append)
qed

lemma sorted_wrt_distinct: "sorted_wrt R ys \<Longrightarrow> (\<And>a. \<not> R a a) \<Longrightarrow> distinct ys"
  by (induction ys) auto

lemma distinct_scanSequence: "distinct (map fst (scanSequence (enumerate 0 ds) n))"
proof -
  have "sorted_wrt (precedes ds) (map fst (scanSequence (enumerate 0 ds) n))"
    using sorted_scanSequence [of ds n] by (simp add: sorted_wrt_map)
  moreover have "\<not> precedes ds i i" for i by (simp add: precedes_def)
  ultimately show ?thesis by (rule sorted_wrt_distinct)
qed

lemma take_sorted_set:
  assumes s: "sorted_wrt R xs" and k: "k < length xs" and asym: "\<And>a b. R a b \<Longrightarrow> \<not> R b a"
  shows "set (take k xs) = {y \<in> set xs. R y (xs ! k)}"
proof (intro set_eqI iffI)
  fix y assume "y \<in> set (take k xs)"
  then obtain j where j: "j < k" "j < length xs" "y = xs ! j"
    by (auto simp: in_set_conv_nth)
  with s k have "R (xs ! j) (xs ! k)" by (simp add: sorted_wrt_nth_less)
  with j show "y \<in> {y \<in> set xs. R y (xs ! k)}" by simp
next
  fix y assume "y \<in> {y \<in> set xs. R y (xs ! k)}"
  then obtain j where j: "j < length xs" "y = xs ! j" and r: "R (xs ! j) (xs ! k)"
    by (auto simp: in_set_conv_nth)
  have "j < k"
  proof (rule ccontr)
    assume "\<not> j < k"
    then consider "j = k" | "k < j" by linarith
    then show False
    proof cases
      case 1
      with r asym show False by blast
    next
      case 2
      with s j have "R (xs ! k) (xs ! j)" by (simp add: sorted_wrt_nth_less)
      with r asym show False by blast
    qed
  qed
  with j k show "y \<in> set (take k xs)" by (auto simp: in_set_conv_nth)
qed

lemma takenClasses_snoc:
  "takenClasses (xs @ [(i, el, anc)])
     = (if eligible el anc then insert (clsName el) (takenClasses xs) else takenClasses xs)"
  by (simp add: takenClasses_def)

text \<open>
  The state after the loop body has run over a list of different elements: the class names
  taken, and the entries, each pushed by an element whose class name was free when the
  loop came to it.
\<close>

lemma fold_visit_char:
  assumes "distinct (map fst xs)"
  shows "seenEl (fold (visit sT) xs \<lparr>seenEl = {}, seenClass = {}, components = []\<rparr>) \<subseteq> fst ` set xs
    \<and> seenClass (fold (visit sT) xs \<lparr>seenEl = {}, seenClass = {}, components = []\<rparr>) = takenClasses xs
    \<and> (\<forall>i c. (i, c) \<in> set (components (fold (visit sT) xs \<lparr>seenEl = {}, seenClass = {}, components = []\<rparr>))
         \<longleftrightarrow> (\<exists>k<length xs. \<exists>el anc. xs ! k = (i, el, anc) \<and> c = componentOf sT el
                \<and> eligible el anc \<and> shown sT el anc
                \<and> (tagName el = ''IMG'' \<or> clsName el \<notin> takenClasses (take k xs))))"
  using assms
proof (induction xs rule: rev_induct)
  case Nil
  show ?case by (simp add: takenClasses_def)
next
  case (snoc x xs)
  obtain i0 el0 anc0 where x: "x = (i0, el0, anc0)" by (cases x)
  define S where "S = fold (visit sT) xs \<lparr>seenEl = {}, seenClass = {}, components = []\<rparr>"
  define rep where "rep = (\<lambda>ys i c. \<exists>k<length ys. \<exists>el anc. ys ! k = (i, el, anc) \<and> c = componentOf sT el
                \<and> eligible el anc \<and> shown sT el anc
                \<and> (tagName el = ''IMG'' \<or> clsName el \<notin> takenClasses (take k ys)))"
  define new where "new = (eligible el0 anc0 \<and> (tagName el0 = ''IMG'' \<or> clsName el0 \<notin> takenClasses xs))"
  from snoc.prems have d: "distinct (map fst xs)" and fresh: "i0 \<notin> fst ` set xs" by (simp_all add: x)
  from snoc.IH [OF d] have a: "seenEl S \<subseteq> fst ` set xs" and b: "seenClass S = takenClasses xs"
    and c: "\<And>i c. (i, c) \<in> set (components S) \<longleftrightarrow> rep xs i c"
    unfolding S_def rep_def by blast+
  have split: "rep (xs @ [x]) i c \<longleftrightarrow> rep xs i c \<or> (new \<and> shown sT el0 anc0 \<and> i = i0 \<and> c = componentOf sT el0)"
    for i c
  proof
    assume "rep (xs @ [x]) i c"
    then obtain k el anc where k: "k < length (xs @ [x])" "(xs @ [x]) ! k = (i, el, anc)"
      "c = componentOf sT el" "eligible el anc" "shown sT el anc"
      "tagName el = ''IMG'' \<or> clsName el \<notin> takenClasses (take k (xs @ [x]))"
      unfolding rep_def by blast
    show "rep xs i c \<or> (new \<and> shown sT el0 anc0 \<and> i = i0 \<and> c = componentOf sT el0)"
    proof (cases "k < length xs")
      case True
      then have "(xs @ [x]) ! k = xs ! k" "take k (xs @ [x]) = take k xs" by (simp_all add: nth_append)
      with k have e: "xs ! k = (i, el, anc)"
        "tagName el = ''IMG'' \<or> clsName el \<notin> takenClasses (take k xs)" by simp_all
      from True e k(3,4,5) have "rep xs i c" unfolding rep_def by blast
      then show ?thesis ..
    next
      case False
      with k(1) have kl: "k = length xs" by simp
      then have "(xs @ [x]) ! k = x" "take k (xs @ [x]) = xs" by simp_all
      with k x show ?thesis by (simp add: new_def)
    qed
  next
    assume "rep xs i c \<or> (new \<and> shown sT el0 anc0 \<and> i = i0 \<and> c = componentOf sT el0)"
    then show "rep (xs @ [x]) i c"
    proof
      assume "rep xs i c"
      then obtain k el anc where k: "k < length xs" "xs ! k = (i, el, anc)"
        "c = componentOf sT el" "eligible el anc" "shown sT el anc"
        "tagName el = ''IMG'' \<or> clsName el \<notin> takenClasses (take k xs)"
        unfolding rep_def by blast
      from k(1) have "(xs @ [x]) ! k = xs ! k" "take k (xs @ [x]) = take k xs"
        and kl: "k < length (xs @ [x])"
        by (simp_all add: nth_append)
      with k have e: "(xs @ [x]) ! k = (i, el, anc)"
        "tagName el = ''IMG'' \<or> clsName el \<notin> takenClasses (take k (xs @ [x]))" by simp_all
      from kl e k(3,4,5) show ?thesis unfolding rep_def by blast
    next
      assume h: "new \<and> shown sT el0 anc0 \<and> i = i0 \<and> c = componentOf sT el0"
      have e: "(xs @ [x]) ! length xs = (i0, el0, anc0)" and t: "take (length xs) (xs @ [x]) = xs"
        and kl: "length xs < length (xs @ [x])" by (simp_all add: x)
      from h have "eligible el0 anc0" "shown sT el0 anc0" "i = i0" "c = componentOf sT el0"
        "tagName el0 = ''IMG'' \<or> clsName el0 \<notin> takenClasses (take (length xs) (xs @ [x]))"
        unfolding t by (simp_all add: new_def)
      with kl e show ?thesis unfolding rep_def by blast
    qed
  qed
  have notseen: "i0 \<notin> seenEl S" using a fresh by blast
  have v: "fold (visit sT) (xs @ [x]) \<lparr>seenEl = {}, seenClass = {}, components = []\<rparr>
      = (if new then S\<lparr>seenClass := insert (clsName el0) (seenClass S),
              seenEl := insert i0 (seenEl S),
              components := components S @ (if shown sT el0 anc0 then [(i0, componentOf sT el0)] else [])\<rparr>
         else S)"
    using notseen b by (auto simp: S_def [symmetric] x visit_eq new_def)
  show ?case
  proof (cases new)
    case True
    then have e: "eligible el0 anc0" by (simp add: new_def)
    have 1: "seenEl (if new then S\<lparr>seenClass := insert (clsName el0) (seenClass S),
              seenEl := insert i0 (seenEl S),
              components := components S @ (if shown sT el0 anc0 then [(i0, componentOf sT el0)] else [])\<rparr>
         else S) \<subseteq> fst ` set (xs @ [x])"
      using True a by (auto simp: x)
    have 2: "seenClass (if new then S\<lparr>seenClass := insert (clsName el0) (seenClass S),
              seenEl := insert i0 (seenEl S),
              components := components S @ (if shown sT el0 anc0 then [(i0, componentOf sT el0)] else [])\<rparr>
         else S) = takenClasses (xs @ [x])"
      using True e b by (simp add: x takenClasses_snoc)
    have 3: "(i, c) \<in> set (components (if new then S\<lparr>seenClass := insert (clsName el0) (seenClass S),
              seenEl := insert i0 (seenEl S),
              components := components S @ (if shown sT el0 anc0 then [(i0, componentOf sT el0)] else [])\<rparr>
         else S)) \<longleftrightarrow> rep (xs @ [x]) i c" for i c
      unfolding split using True c [of i c] by auto
    from 1 2 3 show ?thesis unfolding v rep_def by blast
  next
    case False
    have "takenClasses (xs @ [x]) = takenClasses xs"
      using False by (auto simp: x takenClasses_snoc new_def)
    moreover have "rep (xs @ [x]) i c \<longleftrightarrow> rep xs i c" for i c
      unfolding split using False by simp
    ultimately show ?thesis unfolding v using False a b c unfolding rep_def by auto
  qed
qed

lemma in_takenClasses:
  "cn \<in> takenClasses xs \<longleftrightarrow> (\<exists>(i, el, anc)\<in>set xs. eligible el anc \<and> clsName el = cn)"
  by (force simp: takenClasses_def)

lemma firstOfClass_iff:
  "firstOfClass ds i \<longleftrightarrow>
     (\<forall>j<length ds. candidate (fst (ds ! j)) (snd (ds ! j))
         \<and> clsName (fst (ds ! j)) = clsName (fst (ds ! i)) \<longrightarrow> \<not> precedes ds j i)"
  by (auto simp: firstOfClass_def list_all_iff)

text \<open>The elements of the report.\<close>

lemma reported_iff:
  "i \<in> fst ` set (components (scanLoop sT (enumerate 0 ds))) \<longleftrightarrow>
     i < length ds \<and> candidate (fst (ds ! i)) (snd (ds ! i)) \<and> shown sT (fst (ds ! i)) (snd (ds ! i))
     \<and> (tagName (fst (ds ! i)) = ''IMG'' \<or> firstOfClass ds i)"
proof -
  define xs where "xs = scanSequence (enumerate 0 ds) (length selectors)"
  have loop: "scanLoop sT (enumerate 0 ds)
      = fold (visit sT) xs \<lparr>seenEl = {}, seenClass = {}, components = []\<rparr>"
    unfolding xs_def by (rule scanLoop_scanSequence)
  have dist: "distinct (map fst xs)" unfolding xs_def by (rule distinct_scanSequence)
  have comps: "(j, c) \<in> set (components (scanLoop sT (enumerate 0 ds)))
         \<longleftrightarrow> (\<exists>k<length xs. \<exists>el anc. xs ! k = (j, el, anc) \<and> c = componentOf sT el
                \<and> eligible el anc \<and> shown sT el anc
                \<and> (tagName el = ''IMG'' \<or> clsName el \<notin> takenClasses (take k xs)))" for j c
    unfolding loop using fold_visit_char [OF dist, of sT] by blast
  have mem: "(j, el, anc) \<in> set xs \<longleftrightarrow>
      j < length ds \<and> el = fst (ds ! j) \<and> anc = snd (ds ! j) \<and> firstSelector el < length selectors"
    for j el anc
    unfolding xs_def set_scanSequence by (auto simp: in_set_enumerate_eq)
  have before: "set (take k xs) = {y \<in> set xs. precedes ds (fst y) (fst (xs ! k))}"
    if "k < length xs" for k
    using sorted_scanSequence [of ds "length selectors"] that precedes_asym
    unfolding xs_def [symmetric] by (rule take_sorted_set)
  have free: "clsName el \<notin> takenClasses (take k xs) \<longleftrightarrow> firstOfClass ds j"
    if k: "k < length xs" and xk: "xs ! k = (j, el, anc)" for k j el anc
  proof -
    from k xk have "(j, el, anc) \<in> set xs" by (metis nth_mem)
    with mem have el: "el = fst (ds ! j)" by blast
    have "clsName el \<in> takenClasses (take k xs) \<longleftrightarrow>
        (\<exists>j'<length ds. candidate (fst (ds ! j')) (snd (ds ! j'))
            \<and> clsName (fst (ds ! j')) = clsName (fst (ds ! j)) \<and> precedes ds j' j)"
    proof
      assume "clsName el \<in> takenClasses (take k xs)"
      then obtain j' el' anc' where t: "(j', el', anc') \<in> set (take k xs)" "eligible el' anc'"
        "clsName el' = clsName el"
        unfolding in_takenClasses by blast
      from t(1) have "(j', el', anc') \<in> set xs" "precedes ds j' j"
        unfolding before [OF k] xk by simp_all
      with mem [of j' el' anc'] t(2,3) el
      show "\<exists>j'<length ds. candidate (fst (ds ! j')) (snd (ds ! j'))
            \<and> clsName (fst (ds ! j')) = clsName (fst (ds ! j)) \<and> precedes ds j' j"
        by (auto simp: candidate_def list_ex_firstSelector)
    next
      assume "\<exists>j'<length ds. candidate (fst (ds ! j')) (snd (ds ! j'))
            \<and> clsName (fst (ds ! j')) = clsName (fst (ds ! j)) \<and> precedes ds j' j"
      then obtain j' where j': "j' < length ds" "candidate (fst (ds ! j')) (snd (ds ! j'))"
        "clsName (fst (ds ! j')) = clsName (fst (ds ! j))" "precedes ds j' j" by blast
      then have "(j', fst (ds ! j'), snd (ds ! j')) \<in> set xs"
        unfolding mem by (simp add: candidate_def list_ex_firstSelector)
      with j'(4) have "(j', fst (ds ! j'), snd (ds ! j')) \<in> set (take k xs)"
        unfolding before [OF k] xk by simp
      moreover have "eligible (fst (ds ! j')) (snd (ds ! j'))" using j'(2) by (simp add: candidate_def)
      ultimately show "clsName el \<in> takenClasses (take k xs)"
        unfolding in_takenClasses using j'(3) el by blast
    qed
    then show ?thesis unfolding firstOfClass_iff by blast
  qed
  show ?thesis
  proof
    assume "i \<in> fst ` set (components (scanLoop sT (enumerate 0 ds)))"
    then obtain c where "(i, c) \<in> set (components (scanLoop sT (enumerate 0 ds)))" by auto
    then obtain k el anc where k: "k < length xs" "xs ! k = (i, el, anc)"
      "eligible el anc" "shown sT el anc"
      "tagName el = ''IMG'' \<or> clsName el \<notin> takenClasses (take k xs)"
      unfolding comps by blast
    from k(1,2) have "(i, el, anc) \<in> set xs" by (metis nth_mem)
    with mem [of i el anc] have m: "i < length ds" "el = fst (ds ! i)" "anc = snd (ds ! i)"
      "firstSelector el < length selectors" by blast+
    from k(5) free [OF k(1,2)] have "tagName el = ''IMG'' \<or> firstOfClass ds i" by blast
    with m k(3,4) show "i < length ds \<and> candidate (fst (ds ! i)) (snd (ds ! i))
        \<and> shown sT (fst (ds ! i)) (snd (ds ! i))
        \<and> (tagName (fst (ds ! i)) = ''IMG'' \<or> firstOfClass ds i)"
      by (simp add: candidate_def list_ex_firstSelector)
  next
    assume h: "i < length ds \<and> candidate (fst (ds ! i)) (snd (ds ! i))
        \<and> shown sT (fst (ds ! i)) (snd (ds ! i))
        \<and> (tagName (fst (ds ! i)) = ''IMG'' \<or> firstOfClass ds i)"
    then have "(i, fst (ds ! i), snd (ds ! i)) \<in> set xs"
      unfolding mem by (simp add: candidate_def list_ex_firstSelector)
    then obtain k where k: "k < length xs" "xs ! k = (i, fst (ds ! i), snd (ds ! i))"
      by (auto simp: in_set_conv_nth)
    from h free [OF k] have f: "tagName (fst (ds ! i)) = ''IMG''
        \<or> clsName (fst (ds ! i)) \<notin> takenClasses (take k xs)" by blast
    from h have e: "eligible (fst (ds ! i)) (snd (ds ! i))" "shown sT (fst (ds ! i)) (snd (ds ! i))"
      by (simp_all add: candidate_def)
    from k e f have "(i, componentOf sT (fst (ds ! i))) \<in> set (components (scanLoop sT (enumerate 0 ds)))"
      unfolding comps by blast
    then show "i \<in> fst ` set (components (scanLoop sT (enumerate 0 ds)))" by force
  qed
qed

lemma sectionItems_mem:
  "(i, el, anc) \<in> set (sectionItems outer section) \<longleftrightarrow>
     i < length (descendants outer section) \<and> el = fst (descendants outer section ! i)
     \<and> anc = snd (descendants outer section ! i)"
  by (auto simp: sectionItems_def in_set_enumerate_eq)

lemma reported_component:
  assumes "(i, el, anc) \<in> set (sectionItems outer section)"
  shows "(i, componentOf sT el) \<in> set (components (scanLoop sT (sectionItems outer section)))
     \<longleftrightarrow> candidate el anc \<and> shown sT el anc
          \<and> (tagName el = ''IMG'' \<or> firstOfClass (descendants outer section) i)"
proof -
  let ?ds = "descendants outer section"
  from assms have m: "i < length ?ds" "el = fst (?ds ! i)" "anc = snd (?ds ! i)"
    unfolding sectionItems_mem by simp_all
  have "(i, componentOf sT el) \<in> set (components (scanLoop sT (sectionItems outer section)))
      \<longleftrightarrow> i \<in> fst ` set (components (scanLoop sT (sectionItems outer section)))"
    using reported_eligible [OF distinct_sectionItems assms, of sT] by force
  also have "\<dots> \<longleftrightarrow> candidate el anc \<and> shown sT el anc
          \<and> (tagName el = ''IMG'' \<or> firstOfClass ?ds i)"
    unfolding sectionItems_def reported_iff using m by simp
  finally show ?thesis .
qed






lemma sectionItems_nth:
  "i < length (descendants outer section) \<Longrightarrow>
     (i, fst (descendants outer section ! i), snd (descendants outer section ! i))
       \<in> set (sectionItems outer section)"
  by (simp add: sectionItems_def in_set_enumerate_eq)



subsection \<open>The component inspector: hidden media\<close>

lemma isMediaElement_iff:
  "isMediaElement el anc \<longleftrightarrow>
     tagName el = ''IMG'' \<or> ''media'' \<in> set (classList el)
     \<or> (\<exists>a\<in>set anc. ''media'' \<in> set (classList a))"
  by (auto simp: isMediaElement_def closest_def list_ex_iff)

lemma in_dialog_iff:
  "closest (Id DEBUG_MODAL_ID) el anc \<longleftrightarrow>
     elId el = DEBUG_MODAL_ID \<or> (\<exists>a\<in>set anc. elId a = DEBUG_MODAL_ID)"
  by (auto simp: closest_def list_ex_iff)

lemma hidden_media_reported:
  assumes mem: "(i, el, anc) \<in> set (sectionItems outer section)"
    and h: "hidden el" "tagName el \<noteq> ''BODY''"
    and media: "tagName el = ''IMG'' \<or> ''media'' \<in> set (classList el)
                \<or> (\<exists>a\<in>set anc. ''media'' \<in> set (classList a))"
  shows "((i, componentOf sT el) \<in> set (components (scanLoop sT (sectionItems outer section)))
          \<longleftrightarrow> elId el \<noteq> DEBUG_MODAL_ID \<and> (\<forall>a\<in>set anc. elId a \<noteq> DEBUG_MODAL_ID)
               \<and> classNameOf el \<noteq> None \<and> (\<exists>sel\<in>set selectors. matches sel el)
               \<and> (tagName el = ''IMG'' \<or> firstOfClass (descendants outer section) i))
       \<and> isHidden (componentOf sT el)"
proof -
  from media have m: "isMediaElement el anc" unfolding isMediaElement_iff .
  then have s: "shown sT el anc" by (simp add: shown_def)
  have c: "candidate el anc \<longleftrightarrow> elId el \<noteq> DEBUG_MODAL_ID \<and> (\<forall>a\<in>set anc. elId a \<noteq> DEBUG_MODAL_ID)
               \<and> classNameOf el \<noteq> None \<and> (\<exists>sel\<in>set selectors. matches sel el)"
    using m by (auto simp: candidate_def eligible_def in_dialog_iff list_ex_iff)
  have "isHidden (componentOf sT el)" using h by (simp add: isHidden_componentOf)
  then show ?thesis unfolding reported_component [OF mem] c using s by blast
qed

text \<open>
  Claim C8 (amended). A descendant without a layout box (\<^verbatim>\<open>offsetParent\<close> is \<^verbatim>\<open>null\<close> and
  the tag is not \<^verbatim>\<open>BODY\<close>) that is not media never appears in the report. For media (an
  image, an element with the class \<^verbatim>\<open>media\<close>, an element inside one) the test has no effect:
  the scan reports the same elements when the media elements are made visible, and a
  hidden media element is reported, marked hidden, exactly when it is outside the
  inspector's dialog, has a class name, matches a selector of the list and is an image or
  the first candidate with its class name. A hidden image outside the dialog is always
  reported.
\<close>

theorem hidden_elements_excluded_unless_media:
  "(\<forall>(i, el, anc)\<in>set (sectionItems outer section).
      hidden el \<and> tagName el \<noteq> ''BODY'' \<and> \<not> isMediaElement el anc \<longrightarrow>
        i \<notin> fst ` set (components (scanLoop sT (sectionItems outer section))))
   \<and> (\<forall>(i, el, anc)\<in>set (sectionItems outer section).
      hidden el \<and> tagName el = ''IMG'' \<and> \<not> closest (Id DEBUG_MODAL_ID) el anc \<longrightarrow>
        (i, componentOf sT el) \<in> set (components (scanLoop sT (sectionItems outer section)))
        \<and> isHidden (componentOf sT el))
   \<and> map fst (components (scanLoop sT (map unhideMedia (sectionItems outer section))))
       = map fst (components (scanLoop sT (sectionItems outer section)))
   \<and> (\<forall>(i, el, anc)\<in>set (sectionItems outer section).
      hidden el \<and> tagName el \<noteq> ''BODY''
      \<and> (tagName el = ''IMG'' \<or> ''media'' \<in> set (classList el)
          \<or> (\<exists>a\<in>set anc. ''media'' \<in> set (classList a))) \<longrightarrow>
        ((i, componentOf sT el) \<in> set (components (scanLoop sT (sectionItems outer section)))
          \<longleftrightarrow> elId el \<noteq> DEBUG_MODAL_ID \<and> (\<forall>a\<in>set anc. elId a \<noteq> DEBUG_MODAL_ID)
               \<and> classNameOf el \<noteq> None \<and> (\<exists>sel\<in>set selectors. matches sel el)
               \<and> (tagName el = ''IMG'' \<or> firstOfClass (descendants outer section) i))
        \<and> isHidden (componentOf sT el))
   \<and> (\<forall>(i, el, anc)\<in>set (sectionItems outer section).
      hidden el \<and> tagName el \<noteq> ''BODY'' \<and> tagName el \<noteq> ''IMG''
      \<and> \<not> ''media'' \<in> set (classList el) \<and> \<not> (\<exists>a\<in>set anc. ''media'' \<in> set (classList a)) \<longrightarrow>
        i \<notin> fst ` set (components (scanLoop sT (sectionItems outer section))))"
proof (intro conjI)
  show "\<forall>(i, el, anc)\<in>set (sectionItems outer section).
      hidden el \<and> tagName el \<noteq> ''BODY'' \<and> \<not> isMediaElement el anc \<longrightarrow>
        i \<notin> fst ` set (components (scanLoop sT (sectionItems outer section)))"
    using hidden_not_reported by blast
next
  show "\<forall>(i, el, anc)\<in>set (sectionItems outer section).
      hidden el \<and> tagName el = ''IMG'' \<and> \<not> closest (Id DEBUG_MODAL_ID) el anc \<longrightarrow>
        (i, componentOf sT el) \<in> set (components (scanLoop sT (sectionItems outer section)))
        \<and> isHidden (componentOf sT el)"
    using hidden_img_reported by blast
next
  show "map fst (components (scanLoop sT (map unhideMedia (sectionItems outer section))))
       = map fst (components (scanLoop sT (sectionItems outer section)))"
    using sameReport_scanLoop [of sT "sectionItems outer section"] by (simp add: sameReport_def)
next
  show "\<forall>(i, el, anc)\<in>set (sectionItems outer section).
      hidden el \<and> tagName el \<noteq> ''BODY''
      \<and> (tagName el = ''IMG'' \<or> ''media'' \<in> set (classList el)
          \<or> (\<exists>a\<in>set anc. ''media'' \<in> set (classList a))) \<longrightarrow>
        ((i, componentOf sT el) \<in> set (components (scanLoop sT (sectionItems outer section)))
          \<longleftrightarrow> elId el \<noteq> DEBUG_MODAL_ID \<and> (\<forall>a\<in>set anc. elId a \<noteq> DEBUG_MODAL_ID)
               \<and> classNameOf el \<noteq> None \<and> (\<exists>sel\<in>set selectors. matches sel el)
               \<and> (tagName el = ''IMG'' \<or> firstOfClass (descendants outer section) i))
        \<and> isHidden (componentOf sT el)"
  proof (intro ballI, clarify)
    fix i el anc
    assume "(i, el, anc) \<in> set (sectionItems outer section)" "hidden el" "tagName el \<noteq> ''BODY''"
      "tagName el = ''IMG'' \<or> ''media'' \<in> set (classList el)
          \<or> (\<exists>a\<in>set anc. ''media'' \<in> set (classList a))"
    then show "((i, componentOf sT el) \<in> set (components (scanLoop sT (sectionItems outer section)))
          \<longleftrightarrow> elId el \<noteq> DEBUG_MODAL_ID \<and> (\<forall>a\<in>set anc. elId a \<noteq> DEBUG_MODAL_ID)
               \<and> classNameOf el \<noteq> None \<and> (\<exists>sel\<in>set selectors. matches sel el)
               \<and> (tagName el = ''IMG'' \<or> firstOfClass (descendants outer section) i))
        \<and> isHidden (componentOf sT el)"
      by (rule hidden_media_reported)
  qed
next
  show "\<forall>(i, el, anc)\<in>set (sectionItems outer section).
      hidden el \<and> tagName el \<noteq> ''BODY'' \<and> tagName el \<noteq> ''IMG''
      \<and> \<not> ''media'' \<in> set (classList el) \<and> \<not> (\<exists>a\<in>set anc. ''media'' \<in> set (classList a)) \<longrightarrow>
        i \<notin> fst ` set (components (scanLoop sT (sectionItems outer section)))"
    using hidden_not_reported unfolding isMediaElement_iff by blast
qed

theorem hidden_elements_excluded_unless_media_witness:
  "6 \<notin> fst ` set (components (scanLoop None (sectionItems [] exampleSection)))
   \<and> 5 \<in> fst ` set (components (scanLoop None (sectionItems [] exampleSection)))
   \<and> hidden (fst (descendants [] exampleSection ! 6))
   \<and> hidden (fst (descendants [] exampleSection ! 5))
   \<and> map (\<lambda>(el, anc). (hidden el, getElementSelector el, map getElementSelector (butlast anc)))
        (descendants [] exampleGallery)
       = [(True, ''div.media'', []), (True, ''picture'', [''div.media'']),
          (True, ''span.badge'', [''div.media'']), (True, ''div.media'', []),
          (True, ''span.badge'', [])]
   \<and> 0 \<in> fst ` set (components (scanLoop None (sectionItems [] exampleGallery)))
   \<and> 2 \<in> fst ` set (components (scanLoop None (sectionItems [] exampleGallery)))
   \<and> 4 \<notin> fst ` set (components (scanLoop None (sectionItems [] exampleGallery)))"
proof -
  let ?ds = "descendants [] exampleSection"
  have len: "5 < length ?ds" "6 < length ?ds" by code_simp+
  have h5: "hidden (fst (?ds ! 5)) \<and> tagName (fst (?ds ! 5)) = ''IMG''
      \<and> \<not> closest (Id DEBUG_MODAL_ID) (fst (?ds ! 5)) (snd (?ds ! 5))" by code_simp
  have h6: "hidden (fst (?ds ! 6)) \<and> tagName (fst (?ds ! 6)) \<noteq> ''BODY''
      \<and> \<not> isMediaElement (fst (?ds ! 6)) (snd (?ds ! 6))" by code_simp
  note inst = hidden_elements_excluded_unless_media [of "[]" exampleSection None]
  from inst sectionItems_nth [OF len(2)] h6
  have 6: "6 \<notin> fst ` set (components (scanLoop None (sectionItems [] exampleSection)))" by blast
  from inst sectionItems_nth [OF len(1)] h5
  have "(5, componentOf None (fst (?ds ! 5))) \<in> set (components (scanLoop None (sectionItems [] exampleSection)))"
    by blast
  then have 5: "5 \<in> fst ` set (components (scanLoop None (sectionItems [] exampleSection)))" by force
  let ?gs = "descendants [] exampleGallery"
  have shape: "map (\<lambda>(el, anc). (hidden el, getElementSelector el, map getElementSelector (butlast anc))) ?gs
       = [(True, ''div.media'', []), (True, ''picture'', [''div.media'']),
          (True, ''span.badge'', [''div.media'']), (True, ''div.media'', []),
          (True, ''span.badge'', [])]" by code_simp
  have glen: "0 < length ?gs" "2 < length ?gs" "4 < length ?gs" by code_simp+
  note media = hidden_elements_excluded_unless_media [of "[]" exampleGallery None,
      THEN conjunct2, THEN conjunct2, THEN conjunct2, THEN conjunct1]
  note other = hidden_elements_excluded_unless_media [of "[]" exampleGallery None,
      THEN conjunct2, THEN conjunct2, THEN conjunct2, THEN conjunct2]
  have g0: "hidden (fst (?gs ! 0))" "tagName (fst (?gs ! 0)) \<noteq> ''BODY''"
    "''media'' \<in> set (classList (fst (?gs ! 0)))"
    "elId (fst (?gs ! 0)) \<noteq> DEBUG_MODAL_ID" "\<forall>a\<in>set (snd (?gs ! 0)). elId a \<noteq> DEBUG_MODAL_ID"
    "classNameOf (fst (?gs ! 0)) \<noteq> None" "\<exists>sel\<in>set selectors. matches sel (fst (?gs ! 0))"
    "firstOfClass ?gs 0" by code_simp+
  from media sectionItems_nth [OF glen(1)] g0
  have "(0, componentOf None (fst (?gs ! 0)))
          \<in> set (components (scanLoop None (sectionItems [] exampleGallery)))" by blast
  then have r0: "0 \<in> fst ` set (components (scanLoop None (sectionItems [] exampleGallery)))" by force
  have g2: "hidden (fst (?gs ! 2))" "tagName (fst (?gs ! 2)) \<noteq> ''BODY''"
    "\<exists>a\<in>set (snd (?gs ! 2)). ''media'' \<in> set (classList a)"
    "elId (fst (?gs ! 2)) \<noteq> DEBUG_MODAL_ID" "\<forall>a\<in>set (snd (?gs ! 2)). elId a \<noteq> DEBUG_MODAL_ID"
    "classNameOf (fst (?gs ! 2)) \<noteq> None" "\<exists>sel\<in>set selectors. matches sel (fst (?gs ! 2))"
    "firstOfClass ?gs 2" by code_simp+
  from media sectionItems_nth [OF glen(2)] g2
  have "(2, componentOf None (fst (?gs ! 2)))
          \<in> set (components (scanLoop None (sectionItems [] exampleGallery)))" by blast
  then have r2: "2 \<in> fst ` set (components (scanLoop None (sectionItems [] exampleGallery)))" by force
  have g4: "hidden (fst (?gs ! 4))" "tagName (fst (?gs ! 4)) \<noteq> ''BODY''"
    "tagName (fst (?gs ! 4)) \<noteq> ''IMG''" "\<not> ''media'' \<in> set (classList (fst (?gs ! 4)))"
    "\<not> (\<exists>a\<in>set (snd (?gs ! 4)). ''media'' \<in> set (classList a))" by code_simp+
  from other sectionItems_nth [OF glen(3)] g4
  have r4: "4 \<notin> fst ` set (components (scanLoop None (sectionItems [] exampleGallery)))" by blast
  from 6 5 h5 h6 shape r0 r2 r4 show ?thesis by (intro conjI) simp_all
qed

theorem hidden_media_not_reported_counterexample:
  "map (\<lambda>(el, anc). (hidden el, getElementSelector el, map getElementSelector (butlast anc)))
        (descendants [] exampleGallery)
       = [(True, ''div.media'', []), (True, ''picture'', [''div.media'']),
          (True, ''span.badge'', [''div.media'']), (True, ''div.media'', []),
          (True, ''span.badge'', [])]
   \<and> map (\<lambda>(el, anc). isMediaElement el anc) (descendants [] exampleGallery)
       = [True, True, True, True, False]
   \<and> map fst (components (scanLoop None (sectionItems [] exampleGallery))) = [0, 2]
   \<and> map factElement (scanSectionComponents None [] exampleGallery)
       = [''Section Container'', ''div'', ''span'']"
  by code_simp

subsection \<open>The section enumerator\<close>

lemma step_child:
  assumes "i = length pre"
  shows "initSection restyle r (i # p) (Node e (pre @ k # post))
           = Node e (pre @ initSection restyle r p k # post)"
  using assms by (simp add: initSection_def nth_append list_update_append split: option.splits)

lemma fold_child:
  "i = length pre \<Longrightarrow>
     fold (initSection restyle r) (map ((#) i) ps) (Node e (pre @ k # post))
       = Node e (pre @ fold (initSection restyle r) ps k # post)"
  by (induction ps arbitrary: k) (simp_all add: step_child)

lemma fold_kids:
  assumes "\<forall>k\<in>set ks. fold (initSection restyle r) (pathsWhere isSectionEl k) k = initRec restyle r k"
  shows "fold (initSection restyle r) (pathsKids isSectionEl (length pre) ks) (Node e (pre @ ks @ post))
           = Node e (pre @ map (initRec restyle r) ks @ post)"
  using assms
proof (induction ks arbitrary: pre)
  case Nil
  then show ?case by simp
next
  case (Cons k ks)
  have "fold (initSection restyle r) (pathsKids isSectionEl (length pre) (k # ks)) (Node e (pre @ (k # ks) @ post))
      = fold (initSection restyle r) (pathsKids isSectionEl (Suc (length pre)) ks)
          (Node e (pre @ initRec restyle r k # ks @ post))"
    using Cons.prems by (simp add: fold_child)
  also have "\<dots> = fold (initSection restyle r) (pathsKids isSectionEl (length (pre @ [initRec restyle r k])) ks)
          (Node e ((pre @ [initRec restyle r k]) @ ks @ post))"
    by simp
  also have "\<dots> = Node e ((pre @ [initRec restyle r k]) @ map (initRec restyle r) ks @ post)"
    using Cons.prems by (intro Cons.IH) simp
  finally show ?case by simp
qed

lemma initSection_root:
  "initSection restyle r [] n = (if hasButton n then n else inject restyle r n)"
  by (simp add: initSection_def)

lemma init_initRec_node:
  "fold (initSection restyle r) (pathsWhere isSectionEl n) n = initRec restyle r n"
proof (induction n)
  case (Node e ks)
  then have IH: "\<forall>k\<in>set ks. fold (initSection restyle r) (pathsWhere isSectionEl k) k = initRec restyle r k"
    by simp
  show ?case
  proof (cases "isSectionEl e")
    case False
    then show ?thesis using fold_kids [OF IH, of "[]" e "[]"] by simp
  next
    case True
    show ?thesis
    proof (cases "hasButton (Node e ks)")
      case True
      with \<open>isSectionEl e\<close> show ?thesis
        using fold_kids [OF IH, of "[]" e "[]"] by (simp add: initSection_root)
    next
      case False
      with \<open>isSectionEl e\<close> show ?thesis
        using fold_kids [OF IH, of "[]" _ "[createDebugButton r]"] by (simp add: initSection_root)
    qed
  qed
qed

lemma init_initRec: "init restyle r doc = initRec restyle r doc"
  by (simp add: init_def init_initRec_node)


lemma descendants_anc: "map fst (descendants anc n) = map fst (descendants [] n)"
proof (induction n arbitrary: anc)
  case (Node e ks)
  have "\<And>a. map fst (descendants a (Node e ks))
          = concat (map (\<lambda>k. attrs k # map fst (descendants [] k)) ks)"
  proof -
    fix a
    have "map fst (descendants a (Node e ks))
            = concat (map (\<lambda>k. attrs k # map fst (descendants (e # a) k)) ks)"
      by (simp add: map_concat comp_def)
    also have "\<dots> = concat (map (\<lambda>k. attrs k # map fst (descendants [] k)) ks)"
    proof -
      have "\<And>k. k \<in> set ks \<Longrightarrow> map fst (descendants (e # a) k) = map fst (descendants [] k)"
        by (rule Node.IH)
      then have "map (\<lambda>k. attrs k # map fst (descendants (e # a) k)) ks
                   = map (\<lambda>k. attrs k # map fst (descendants [] k)) ks"
        by (intro map_cong refl) (simp only:)
      then show ?thesis by (simp only:)
    qed
    finally show "map fst (descendants a (Node e ks))
          = concat (map (\<lambda>k. attrs k # map fst (descendants [] k)) ks)" .
  qed
  then show ?case by simp
qed

lemma hasButton_elems: "hasButton n \<longleftrightarrow> (\<exists>el\<in>set (map fst (descendants [] n)). isButtonEl el)"
  by (force simp: hasButton_def list_ex_iff)

lemma hasButton_Node:
  "hasButton (Node e ks) \<longleftrightarrow> (\<exists>k\<in>set ks. isButtonEl (attrs k) \<or> hasButton k)"
proof -
  have "map fst (descendants [] (Node e ks))
          = concat (map (\<lambda>k. attrs k # map fst (descendants [] k)) ks)"
    using descendants_anc [of "[e]"] by (simp add: map_concat comp_def)
  then show ?thesis unfolding hasButton_elems by auto
qed

lemma matches_setPosition: "matches sel (setPositionRelative restyle e) = matches sel e"
  by (cases sel) (simp_all add: setPositionRelative_def classList_def)

lemma setPosition_kind:
  "isButtonEl (setPositionRelative restyle e) = isButtonEl e"
  "isSectionEl (setPositionRelative restyle e) = isSectionEl e"
  unfolding isButtonEl_def isSectionEl_def by (rule matches_setPosition)+

lemma attrs_initRec:
  "isButtonEl (attrs (initRec restyle r n)) = isButtonEl (attrs n)"
  "isSectionEl (attrs (initRec restyle r n)) = isSectionEl (attrs n)"
proof -
  obtain e ks where n: "n = Node e ks" by (cases n)
  show "isButtonEl (attrs (initRec restyle r n)) = isButtonEl (attrs n)"
    unfolding n by (simp add: setPosition_kind)
  show "isSectionEl (attrs (initRec restyle r n)) = isSectionEl (attrs n)"
    unfolding n by (simp add: setPosition_kind)
qed

lemma classList_created:
  "classList (created r tg ''section-debug-btn'' h) = [''section-debug-btn'']"
  "classList (created r tg [] h) = []"
  "classList (created r tg ''section-debug-btn__type'' h) = [''section-debug-btn__type'']"
proof -
  have "filter (\<lambda>w. w \<noteq> []) (splitWhen isAsciiSpace ''section-debug-btn'') = [''section-debug-btn'']"
    "filter (\<lambda>w. w \<noteq> []) (splitWhen isAsciiSpace []) = []"
    "filter (\<lambda>w. w \<noteq> []) (splitWhen isAsciiSpace ''section-debug-btn__type'') = [''section-debug-btn__type'']"
    by code_simp+
  moreover have "\<And>cls. classAttr (created r tg cls h) = cls" by (simp add: created_def)
  ultimately show "classList (created r tg ''section-debug-btn'' h) = [''section-debug-btn'']"
    "classList (created r tg [] h) = []"
    "classList (created r tg ''section-debug-btn__type'' h) = [''section-debug-btn__type'']"
    unfolding classList_def by (simp_all only:)
qed

lemma created_kind:
  "isButtonEl (created r tg ''section-debug-btn'' h)"
  "\<not> isSectionEl (created r tg ''section-debug-btn'' h)"
  "\<not> isSectionEl (created r tg [] h)"
  "\<not> isSectionEl (created r tg ''section-debug-btn__type'' h)"
  unfolding isButtonEl_def isSectionEl_def matches.simps classList_created by simp_all

lemma button_is_button: "isButtonEl (attrs (createDebugButton r))"
  by (simp add: createDebugButton_def created_kind)

lemma button_settled: "settled (createDebugButton r)"
  by (simp add: createDebugButton_def created_kind)

lemma button_no_sections: "pathsWhere isSectionEl (createDebugButton r) = []"
  by (simp add: createDebugButton_def created_kind)

lemma hasButton_initRec: "hasButton n \<Longrightarrow> hasButton (initRec restyle r n)"
proof (induction n)
  case (Node e ks)
  from Node.prems obtain k where k: "k \<in> set ks" "isButtonEl (attrs k) \<or> hasButton k"
    unfolding hasButton_Node by blast
  with Node.IH have "isButtonEl (attrs (initRec restyle r k)) \<or> hasButton (initRec restyle r k)"
    by (auto simp: attrs_initRec)
  with k(1) have "hasButton (Node e (map (initRec restyle r) ks))"
    unfolding hasButton_Node by auto
  with Node.prems show ?case by (simp add: hasButton_Node)
qed

lemma settled_initRec: "settled (initRec restyle r n)"
proof (induction n)
  case (Node e ks)
  have kids: "list_all settled (map (initRec restyle r) ks)"
    using Node.IH by (simp add: list_all_iff)
  show ?case
  proof (cases "isSectionEl e \<and> \<not> hasButton (Node e ks)")
    case True
    have "hasButton (Node (if styles e ''position'' = ''static'' then setPositionRelative restyle e else e)
                (map (initRec restyle r) ks @ [createDebugButton r]))"
      unfolding hasButton_Node using button_is_button by auto
    with True kids show ?thesis by (simp add: button_settled)
  next
    case False
    have "hasButton (Node e ks) \<Longrightarrow> hasButton (Node e (map (initRec restyle r) ks))"
      using hasButton_initRec [of "Node e ks" restyle r] by (simp split: if_splits)
    with False kids show ?thesis by auto
  qed
qed

lemma initRec_settled: "settled n \<Longrightarrow> initRec restyle r n = n"
proof (induction n)
  case (Node e ks)
  then have "map (initRec restyle r) ks = ks"
    by (intro map_idI) (simp add: list_all_iff)
  with Node.prems show ?case by auto
qed

lemma initRec_idem: "initRec restyle r (initRec restyle r n) = initRec restyle r n"
  by (rule initRec_settled [OF settled_initRec])

lemma pathsKids_append:
  "pathsKids P j (xs @ ys) = pathsKids P j xs @ pathsKids P (j + length xs) ys"
  by (induction xs arbitrary: j) simp_all

lemma pathsWhere_initRec:
  "pathsWhere isSectionEl (initRec restyle r n) = pathsWhere isSectionEl n"
proof (induction n)
  case (Node e ks)
  have kids: "\<And>j. pathsKids isSectionEl j (map (initRec restyle r) ks) = pathsKids isSectionEl j ks"
    using Node.IH
  proof (induction ks)
    case Nil
    show ?case by simp
  next
    case (Cons k ks)
    then show ?case by simp
  qed
  show ?case
    by (simp add: kids pathsKids_append button_no_sections setPosition_kind)
qed

lemma pathsKids_mem:
  "p \<in> set (pathsKids P j ks) \<longleftrightarrow>
     (\<exists>i q. p = (j + i) # q \<and> i < length ks \<and> q \<in> set (pathsWhere P (ks ! i)))"
proof (induction ks arbitrary: j)
  case Nil
  show ?case by simp
next
  case (Cons k ks)
  show ?case (is "?L \<longleftrightarrow> ?R")
  proof
    assume ?L
    then consider "p \<in> (#) j ` set (pathsWhere P k)" | "p \<in> set (pathsKids P (Suc j) ks)" by auto
    then show ?R
    proof cases
      case 1
      then obtain q where "p = (j + 0) # q" "q \<in> set (pathsWhere P ((k # ks) ! 0))" by auto
      then show ?thesis by (intro exI [of _ 0] exI [of _ q]) simp
    next
      case 2
      with Cons.IH [of "Suc j"] obtain i q where
        "p = (Suc j + i) # q" "i < length ks" "q \<in> set (pathsWhere P (ks ! i))" by blast
      then show ?thesis by (intro exI [of _ "Suc i"] exI [of _ q]) simp
    qed
  next
    assume ?R
    then obtain i q where iq: "p = (j + i) # q" "i < length (k # ks)" "q \<in> set (pathsWhere P ((k # ks) ! i))"
      by blast
    show ?L
    proof (cases i)
      case 0
      with iq show ?thesis by simp
    next
      case (Suc i')
      with iq have "p = (Suc j + i') # q" "i' < length ks" "q \<in> set (pathsWhere P (ks ! i'))" by simp_all
      with Cons.IH [of "Suc j"] have "p \<in> set (pathsKids P (Suc j) ks)" by blast
      then show ?thesis by simp
    qed
  qed
qed

lemma one_button:
  "\<not> hasButton n \<Longrightarrow> p \<in> set (pathsWhere isSectionEl n)
     \<Longrightarrow> \<exists>m. nodeAt (initRec restyle r n) p = Some m \<and> buttonCount m = 1"
proof (induction n arbitrary: p)
  case (Node e ks)
  from Node.prems(1) have nb: "\<forall>k\<in>set ks. \<not> isButtonEl (attrs k) \<and> \<not> hasButton k"
    unfolding hasButton_Node by blast
  show ?case
  proof (cases p)
    case Nil
    with Node.prems(2) have "isSectionEl e"
      by (auto simp: pathsKids_mem split: if_splits)
    moreover have "filter (\<lambda>k. isButtonEl (attrs k)) (map (initRec restyle r) ks) = []"
      using nb by (simp add: filter_empty_conv attrs_initRec)
    ultimately show ?thesis
      using Node.prems(1) Nil by (simp add: buttonCount_def button_is_button)
  next
    case (Cons i q)
    with Node.prems(2) have "i # q \<in> set (pathsKids isSectionEl 0 ks)"
      by (auto split: if_splits)
    then have i: "i < length ks" and q: "q \<in> set (pathsWhere isSectionEl (ks ! i))"
      by (auto simp: pathsKids_mem)
    from i have mem: "ks ! i \<in> set ks" by simp
    with nb have "\<not> hasButton (ks ! i)" by blast
    from Node.IH [OF mem this q] obtain m where
      m: "nodeAt (initRec restyle r (ks ! i)) q = Some m" "buttonCount m = 1" by blast
    have "nodeAt (initRec restyle r (Node e ks)) (i # q) = nodeAt (initRec restyle r (ks ! i)) q"
      using i by (simp add: nth_append)
    with m Cons show ?thesis by simp
  qed
qed


text \<open>
  Claim C4. Running \<^verbatim>\<open>init\<close> a second time changes nothing: the document after two calls is
  the document after one, with the same sections. On a document without debug buttons,
  every section then has exactly one debug button among its children.
\<close>

theorem init_idempotent:
  "init restyle r (init restyle r doc) = init restyle r doc
   \<and> pathsWhere isSectionEl (init restyle r doc) = pathsWhere isSectionEl doc
   \<and> (\<not> hasButton doc \<longrightarrow>
        (\<forall>p\<in>set (pathsWhere isSectionEl doc).
           \<exists>m. nodeAt (init restyle r (init restyle r doc)) p = Some m \<and> buttonCount m = 1))"
proof (intro conjI impI ballI)
  show "init restyle r (init restyle r doc) = init restyle r doc"
    by (simp add: init_initRec initRec_idem)
  show "pathsWhere isSectionEl (init restyle r doc) = pathsWhere isSectionEl doc"
    by (simp add: init_initRec pathsWhere_initRec)
next
  fix p
  assume "\<not> hasButton doc" and "p \<in> set (pathsWhere isSectionEl doc)"
  then show "\<exists>m. nodeAt (init restyle r (init restyle r doc)) p = Some m \<and> buttonCount m = 1"
    unfolding init_initRec initRec_idem by (rule one_button)
qed

theorem init_idempotent_witness:
  "pathsWhere isSectionEl exampleDoc = [[0], [1], [1, 0]]
   \<and> init exampleRestyle exampleRender (init exampleRestyle exampleRender exampleDoc)
       = init exampleRestyle exampleRender exampleDoc
   \<and> (\<exists>m. nodeAt (init exampleRestyle exampleRender (init exampleRestyle exampleRender exampleDoc)) [1]
              = Some m \<and> buttonCount m = 1)
   \<and> (\<exists>m. nodeAt (init exampleRestyle exampleRender (init exampleRestyle exampleRender exampleDoc)) [1, 0]
              = Some m \<and> buttonCount m = 1)
   \<and> map buttonCount
        (kids (init exampleRestyle exampleRender (init exampleRestyle exampleRender exampleDoc))) = [1, 1]"
proof -
  have nb: "\<not> hasButton exampleDoc" by code_simp
  have ps: "pathsWhere isSectionEl exampleDoc = [[0], [1], [1, 0]]" by code_simp
  have cnt: "map buttonCount
        (kids (init exampleRestyle exampleRender (init exampleRestyle exampleRender exampleDoc))) = [1, 1]"
    by code_simp
  note inst = init_idempotent [of exampleRestyle exampleRender exampleDoc]
  have mem: "[1] \<in> set (pathsWhere isSectionEl exampleDoc)"
    "[1, 0] \<in> set (pathsWhere isSectionEl exampleDoc)"
    unfolding ps by simp_all
  from inst nb mem have
    "\<exists>m. nodeAt (init exampleRestyle exampleRender (init exampleRestyle exampleRender exampleDoc)) [1]
              = Some m \<and> buttonCount m = 1"
    "\<exists>m. nodeAt (init exampleRestyle exampleRender (init exampleRestyle exampleRender exampleDoc)) [1, 0]
              = Some m \<and> buttonCount m = 1"
    by blast+
  with inst ps cnt show ?thesis by blast
qed

end
